theory Spec2Isabelle
  imports Main "HOL-Library.AList" "HOL-Library.Char_ord" "HOL-Library.List_Lexorder"
begin

section \<open>The Weisfeiler-Lehman walker of pyRDF2Vec\<close>

text \<open>
  A shallow embedding of \<^verbatim>\<open>pyrdf2vec/walkers/weisfeiler_lehman.py\<close>. The class
  \<^verbatim>\<open>WLWalker\<close> keeps two tables, \<^verbatim>\<open>_label_map\<close> and \<^verbatim>\<open>_inv_label_map\<close>, that its
  methods mutate in place. The methods become functions that take the walker and return
  the walker as the call leaves it, paired with the value returned or the exception
  raised: a Python exception does not undo the mutations made before it.
\<close>

subsection \<open>Python values, dictionaries and exceptions\<close>

datatype error = KeyError | TypeError

text \<open>
  A Python \<^verbatim>\<open>dict\<close> keeps its keys in insertion order, and storing under a key that
  exists keeps the key's place. An association list updated by \<^const>\<open>AList.update\<close> does
  the same; \<^const>\<open>map_of\<close> is the lookup.
\<close>

type_synonym ('k, 'v) dict = "('k \<times> 'v) list"

definition dict_getitem :: "('k, 'v) dict \<Rightarrow> 'k \<Rightarrow> error + 'v" where
  "dict_getitem d k = (case map_of d k of None \<Rightarrow> Inl KeyError | Some v \<Rightarrow> Inr v)"

text \<open>
  \<^verbatim>\<open>defaultdict(dict).__getitem__\<close>: a missing key is first stored with a new empty
  dictionary, which is then returned.
\<close>

definition defaultdict_getitem ::
  "('k, ('j, 'v) dict) dict \<Rightarrow> 'k \<Rightarrow> ('k, ('j, 'v) dict) dict \<times> ('j, 'v) dict" where
  "defaultdict_getitem d k =
     (case map_of d k of None \<Rightarrow> (d @ [(k, [])], []) | Some inner \<Rightarrow> (d, inner))"

text \<open>The read \<^verbatim>\<open>d[k][j]\<close> and the store \<^verbatim>\<open>d[k][j] = v\<close> on a \<^verbatim>\<open>defaultdict(dict)\<close>.\<close>

definition getitem2 ::
  "('k, ('j, 'v) dict) dict \<Rightarrow> 'k \<Rightarrow> 'j \<Rightarrow> ('k, ('j, 'v) dict) dict \<times> (error + 'v)" where
  "getitem2 d k j = (case defaultdict_getitem d k of (d', inner) \<Rightarrow> (d', dict_getitem inner j))"

definition setitem2 ::
  "('k, ('j, 'v) dict) dict \<Rightarrow> 'k \<Rightarrow> 'j \<Rightarrow> 'v \<Rightarrow> ('k, ('j, 'v) dict) dict" where
  "setitem2 d k j v =
     (case defaultdict_getitem d k of (d', inner) \<Rightarrow> AList.update k (AList.update j v inner) d')"

text \<open>\<^verbatim>\<open>sep.join(xs)\<close>.\<close>

fun join :: "string \<Rightarrow> string list \<Rightarrow> string" where
  "join sep [] = []"
| "join sep [x] = x"
| "join sep (x # y # ys) = x @ sep @ join sep (y # ys)"

subsection \<open>The graph and the walker\<close>

text \<open>
  Modelled from the spec: the classes \<^verbatim>\<open>Vertex\<close> and \<^verbatim>\<open>KG\<close> belong to the module
  \<^verbatim>\<open>pyrdf2vec.graphs\<close>, which the walker imports. A vertex has a name and a flag that marks a
  predicate, and the tests build a predicate vertex with the two vertices it stands
  between, as in \<^verbatim>\<open>Vertex("c", predicate=True, vprev=a, vnext=b)\<close>; the walker reads the name
  only. Two vertices may bear one name: every edge with one predicate has a vertex of its
  own for the predicate. Of the graph the walker uses the collection \<^verbatim>\<open>kg._vertices\<close>,
  here the list of the vertices in the order in which the collection enumerates them, and
  \<^verbatim>\<open>kg.get_neighbors(vertex, is_reverse=True)\<close>, the predecessors of a vertex in the order in
  which the graph reports them.
\<close>

datatype vertex =
  Vertex (name: string) (predicate: bool) (vprev: "vertex option") (vnext: "vertex option")

record KG =
  vertices :: "vertex list"
  get_neighbors_reverse :: "vertex \<Rightarrow> vertex list"

text \<open>The keys and values of the \<^verbatim>\<open>Dict[Any, Any]\<close> inside \<^verbatim>\<open>_inv_label_map\<close>.\<close>

datatype any = AInt int | AStr string

record WLWalker =
  wl_iterations :: int
  inv_label_map :: "(string, (any, any) dict) dict"
  is_support_remote :: bool
  label_map :: "(string, (int, string) dict) dict"

text \<open>
  The constructor generated by \<^verbatim>\<open>attr.s\<close>. The argument \<^verbatim>\<open>wl_iterations\<close> is any Python
  object, or absent (the default is 4); its validator \<^verbatim>\<open>instance_of(int)\<close> raises
  \<^verbatim>\<open>TypeError\<close> unless \<^verbatim>\<open>isinstance(value, int)\<close>, which holds of integers and of the
  booleans (\<^verbatim>\<open>bool\<close> is a subclass of \<^verbatim>\<open>int\<close>, with \<^verbatim>\<open>True == 1\<close>). Both tables start
  empty.
\<close>

datatype pyobj = PyInt int | PyBool bool | PyStr string | PyNone

fun isinstance_int :: "pyobj \<Rightarrow> bool" where
  "isinstance_int (PyInt i) = True"
| "isinstance_int (PyBool b) = True"
| "isinstance_int (PyStr s) = False"
| "isinstance_int PyNone = False"

fun int_value :: "pyobj \<Rightarrow> int" where
  "int_value (PyInt i) = i"
| "int_value (PyBool b) = (if b then 1 else 0)"
| "int_value (PyStr s) = 0"
| "int_value PyNone = 0"

definition WLWalker_init :: "pyobj option \<Rightarrow> error + WLWalker" where
  "WLWalker_init arg =
     (let value = (case arg of None \<Rightarrow> PyInt 4 | Some x \<Rightarrow> x) in
      if isinstance_int value
      then Inr \<lparr>wl_iterations = int_value value, inv_label_map = [],
                is_support_remote = False, label_map = []\<rparr>
      else Inl TypeError)"

subsection \<open>Creating a label\<close>

text \<open>
  The list comprehension of \<^verbatim>\<open>_create_label\<close>: the label at level \<open>m\<close> of every
  predecessor, read by \<^verbatim>\<open>self._label_map[neighbor.name][m]\<close>. The first read that fails
  ends the comprehension.
\<close>

fun neighbor_labels ::
  "(string, (int, string) dict) dict \<Rightarrow> vertex list \<Rightarrow> int \<Rightarrow>
     (string, (int, string) dict) dict \<times> (error + string list)" where
  "neighbor_labels lm [] m = (lm, Inr [])"
| "neighbor_labels lm (neighbor # rest) m =
     (case getitem2 lm (name neighbor) m of
        (lm1, Inl e) \<Rightarrow> (lm1, Inl e)
      | (lm1, Inr l) \<Rightarrow>
          (case neighbor_labels lm1 rest m of
             (lm2, Inl e) \<Rightarrow> (lm2, Inl e)
           | (lm2, Inr ls) \<Rightarrow> (lm2, Inr (l # ls))))"

text \<open>
  Lines 60 to 72 of \<^verbatim>\<open>_create_label\<close>, the part after the lazy relabeling: the suffix is
  \<^verbatim>\<open>"-".join(sorted(set([...])))\<close> and the result \<^verbatim>\<open>f"{own}-{suffix}"\<close>, where the
  vertex's own label is read after the suffix is built. Strings are compared as lists
  of characters, in lexicographic order of the character codes.
\<close>

definition create_label_body :: "WLWalker \<Rightarrow> KG \<Rightarrow> vertex \<Rightarrow> int \<Rightarrow> WLWalker \<times> (error + string)" where
  "create_label_body self kg v n =
     (case neighbor_labels (label_map self) (get_neighbors_reverse kg v) (n - 1) of
        (lm1, Inl e) \<Rightarrow> (self\<lparr>label_map := lm1\<rparr>, Inl e)
      | (lm1, Inr ls) \<Rightarrow>
          (let suffix = join ''-'' (sorted_list_of_set (set ls)) in
           case getitem2 lm1 (name v) (n - 1) of
             (lm2, Inl e) \<Rightarrow> (self\<lparr>label_map := lm2\<rparr>, Inl e)
           | (lm2, Inr own) \<Rightarrow> (self\<lparr>label_map := lm2\<rparr>, Inr (own @ ''-'' @ suffix))))"

subsection \<open>Relabeling\<close>

text \<open>
  \<^verbatim>\<open>_weisfeiler_lehman\<close> and \<^verbatim>\<open>_create_label\<close> call each other. The three loops of
  \<^verbatim>\<open>_weisfeiler_lehman\<close> are written first over a parameter \<open>cl\<close> that stands for the
  method \<^verbatim>\<open>self._create_label\<close>, and over \<open>digest\<close>, which stands for the library
  call \<^verbatim>\<open>str(md5(s.encode()).digest())\<close>.
\<close>

text \<open>Lines 84 to 86: level 0 of both tables.\<close>

fun init_labels :: "WLWalker \<Rightarrow> vertex list \<Rightarrow> WLWalker" where
  "init_labels self [] = self"
| "init_labels self (v # vs) =
     init_labels
       (self\<lparr>label_map := setitem2 (label_map self) (name v) 0 (name v),
             inv_label_map := setitem2 (inv_label_map self) (name v) (AInt 0) (AStr (name v))\<rparr>)
       vs"

text \<open>Lines 89 to 92: the vertices at one level \<open>n\<close>.\<close>

fun relabel_vertices ::
  "(WLWalker \<Rightarrow> KG \<Rightarrow> vertex \<Rightarrow> int \<Rightarrow> WLWalker \<times> (error + string)) \<Rightarrow> (string \<Rightarrow> string) \<Rightarrow>
     KG \<Rightarrow> int \<Rightarrow> WLWalker \<Rightarrow> vertex list \<Rightarrow> WLWalker \<times> (error + unit)" where
  "relabel_vertices cl digest kg n self [] = (self, Inr ())"
| "relabel_vertices cl digest kg n self (v # vs) =
     (case cl self kg v n of
        (s1, Inl e) \<Rightarrow> (s1, Inl e)
      | (s1, Inr pre) \<Rightarrow>
          relabel_vertices cl digest kg n
            (s1\<lparr>label_map := setitem2 (label_map s1) (name v) n (digest pre)\<rparr>) vs)"

text \<open>Line 88: the levels, in the order of \<^verbatim>\<open>range(1, self.wl_iterations + 1)\<close>.\<close>

fun relabel_levels ::
  "(WLWalker \<Rightarrow> KG \<Rightarrow> vertex \<Rightarrow> int \<Rightarrow> WLWalker \<times> (error + string)) \<Rightarrow> (string \<Rightarrow> string) \<Rightarrow>
     KG \<Rightarrow> WLWalker \<Rightarrow> int list \<Rightarrow> WLWalker \<times> (error + unit)" where
  "relabel_levels cl digest kg self [] = (self, Inr ())"
| "relabel_levels cl digest kg self (n # ns) =
     (case relabel_vertices cl digest kg n self (vertices kg) of
        (s1, Inl e) \<Rightarrow> (s1, Inl e)
      | (s1, Inr u) \<Rightarrow> relabel_levels cl digest kg s1 ns)"

text \<open>Lines 95 and 96: the items of one vertex's dictionary, stored inverted.\<close>

fun invert_items ::
  "(string, (any, any) dict) dict \<Rightarrow> string \<Rightarrow> (int \<times> string) list \<Rightarrow> (string, (any, any) dict) dict" where
  "invert_items im nm [] = im"
| "invert_items im nm ((k, v) # items) = invert_items (setitem2 im nm (AStr v) (AInt k)) nm items"

text \<open>Lines 94 to 96.\<close>

fun invert_labels :: "WLWalker \<Rightarrow> vertex list \<Rightarrow> WLWalker" where
  "invert_labels self [] = self"
| "invert_labels self (v # vs) =
     (case defaultdict_getitem (label_map self) (name v) of
        (lm1, items) \<Rightarrow>
          invert_labels
            (self\<lparr>label_map := lm1, inv_label_map := invert_items (inv_label_map self) (name v) items\<rparr>)
            vs)"

definition weisfeiler_lehman_with ::
  "(WLWalker \<Rightarrow> KG \<Rightarrow> vertex \<Rightarrow> int \<Rightarrow> WLWalker \<times> (error + string)) \<Rightarrow> (string \<Rightarrow> string) \<Rightarrow>
     WLWalker \<Rightarrow> KG \<Rightarrow> WLWalker \<times> (error + unit)" where
  "weisfeiler_lehman_with cl digest self kg =
     (let s0 = init_labels self (vertices kg) in
      case relabel_levels cl digest kg s0 [1..wl_iterations s0] of
        (s1, Inl e) \<Rightarrow> (s1, Inl e)
      | (s1, Inr u) \<Rightarrow> (invert_labels s1 (vertices kg), Inr ()))"

text \<open>
  The recursion is tied in two steps. \<open>weisfeiler_lehman\<close> runs the loops with the
  body of \<^verbatim>\<open>_create_label\<close> that follows the lazy check of line 57, and \<open>create_label\<close>
  is the whole method: the check, the relabeling it may start, and the body. Lemma
  \<open>weisfeiler_lehman_unfold\<close> below shows that \<open>weisfeiler_lehman\<close> is the same
  function when its loops call \<open>create_label\<close> itself, as the source does: line 85 has
  filled the table before line 91 runs, so the check of line 57 fails there.
\<close>

definition weisfeiler_lehman :: "(string \<Rightarrow> string) \<Rightarrow> WLWalker \<Rightarrow> KG \<Rightarrow> WLWalker \<times> (error + unit)" where
  "weisfeiler_lehman digest self kg = weisfeiler_lehman_with create_label_body digest self kg"

definition create_label ::
  "(string \<Rightarrow> string) \<Rightarrow> WLWalker \<Rightarrow> KG \<Rightarrow> vertex \<Rightarrow> int \<Rightarrow> WLWalker \<times> (error + string)" where
  "create_label digest self kg v n =
     (case (if length (label_map self) = 0 then weisfeiler_lehman digest self kg else (self, Inr ())) of
        (s1, Inl e) \<Rightarrow> (s1, Inl e)
      | (s1, Inr u) \<Rightarrow> create_label_body s1 kg v n)"

subsection \<open>Canonical walks\<close>

text \<open>
  Lines 147 to 152 of \<^verbatim>\<open>_extract\<close>: the hops of one walk from index \<open>i\<close> on, appended
  to the canonical walk built so far.
\<close>

fun canonical_walk ::
  "(string, (int, string) dict) dict \<Rightarrow> int \<Rightarrow> nat \<Rightarrow> string list \<Rightarrow> vertex list \<Rightarrow>
     (string, (int, string) dict) dict \<times> (error + string list)" where
  "canonical_walk lm n i acc [] = (lm, Inr acc)"
| "canonical_walk lm n i acc (hop # hops) =
     (if i = 0 \<or> i mod 2 = 1 then canonical_walk lm n (i + 1) (acc @ [name hop]) hops
      else
        (case getitem2 lm (name hop) n of
           (lm1, Inl e) \<Rightarrow> (lm1, Inl e)
         | (lm1, Inr l) \<Rightarrow> canonical_walk lm1 n (i + 1) (acc @ [l]) hops))"

text \<open>Lines 146 to 153: the walks at one level, each added to the set.\<close>

fun canonical_walks_at ::
  "(string, (int, string) dict) dict \<Rightarrow> int \<Rightarrow> string list set \<Rightarrow> vertex list list \<Rightarrow>
     (string, (int, string) dict) dict \<times> (error + string list set)" where
  "canonical_walks_at lm n cws [] = (lm, Inr cws)"
| "canonical_walks_at lm n cws (walk # walks) =
     (case canonical_walk lm n 0 [] walk of
        (lm1, Inl e) \<Rightarrow> (lm1, Inl e)
      | (lm1, Inr c) \<Rightarrow> canonical_walks_at lm1 n (insert c cws) walks)"

text \<open>Line 145: the levels, in the order of \<^verbatim>\<open>range(self.wl_iterations + 1)\<close>.\<close>

fun canonical_walks_levels ::
  "(string, (int, string) dict) dict \<Rightarrow> string list set \<Rightarrow> vertex list list \<Rightarrow> int list \<Rightarrow>
     (string, (int, string) dict) dict \<times> (error + string list set)" where
  "canonical_walks_levels lm cws walks [] = (lm, Inr cws)"
| "canonical_walks_levels lm cws walks (n # ns) =
     (case canonical_walks_at lm n cws walks of
        (lm1, Inl e) \<Rightarrow> (lm1, Inl e)
      | (lm1, Inr cws1) \<Rightarrow> canonical_walks_levels lm1 cws1 walks ns)"

text \<open>
  \<^verbatim>\<open>_extract\<close>. The sampler \<^verbatim>\<open>self.extract_walks\<close> belongs to the base class
  \<^verbatim>\<open>RandomWalker\<close> and is a parameter. The result is the dictionary with the one key
  \<^verbatim>\<open>instance.name\<close>; the tuple made of the set is kept as the set, since the order in
  which a Python set is enumerated is not fixed.
\<close>

definition extract_instance ::
  "(KG \<Rightarrow> vertex \<Rightarrow> vertex list list) \<Rightarrow> WLWalker \<Rightarrow> KG \<Rightarrow> vertex \<Rightarrow>
     WLWalker \<times> (error + (string, string list set) dict)" where
  "extract_instance extract_walks self kg inst =
     (let walks = extract_walks kg inst in
      case canonical_walks_levels (label_map self) {} walks [0..wl_iterations self] of
        (lm1, Inl e) \<Rightarrow> (self\<lparr>label_map := lm1\<rparr>, Inl e)
      | (lm1, Inr cws) \<Rightarrow> (self\<lparr>label_map := lm1\<rparr>, Inr [(name inst, cws)]))"

section \<open>Specification of the tables\<close>

subsection \<open>Reading the tables\<close>

text \<open>
  A read of \<^verbatim>\<open>d[k][j]\<close> that changes nothing: the value stored under the two keys, if
  there is one. \<open>stored_label\<close> is the label of a vertex name at a level as the Label
  Table holds it.
\<close>

definition table_get :: "('k, ('j, 'v) dict) dict \<Rightarrow> 'k \<Rightarrow> 'j \<Rightarrow> 'v option" where
  "table_get d k j = (case map_of d k of None \<Rightarrow> None | Some inner \<Rightarrow> map_of inner j)"

definition stored_label :: "WLWalker \<Rightarrow> string \<Rightarrow> int \<Rightarrow> string option" where
  "stored_label self nm n = table_get (label_map self) nm n"

subsection \<open>The labels the algorithm is meant to compute\<close>

text \<open>
  The relabeling as the design describes it: the label at level 0 is the name, and the
  label at the next level is the digest of the vertex's own label, the separator, and the
  sorted set of its predecessors' labels joined by the separator.
\<close>

definition next_label :: "(string \<Rightarrow> string) \<Rightarrow> KG \<Rightarrow> (vertex \<Rightarrow> string) \<Rightarrow> vertex \<Rightarrow> string" where
  "next_label digest kg g v =
     digest (g v @ ''-'' @ join ''-'' (sorted_list_of_set (g ` set (get_neighbors_reverse kg v))))"

fun wl_label :: "(string \<Rightarrow> string) \<Rightarrow> KG \<Rightarrow> nat \<Rightarrow> vertex \<Rightarrow> string" where
  "wl_label digest kg 0 v = name v"
| "wl_label digest kg (Suc n) v = next_label digest kg (wl_label digest kg n) v"

text \<open>
  The graphs the design speaks of: the names of the vertices are unique, and the
  predecessors that the graph reports for its vertices are vertices of the graph.
\<close>

definition kg_wf :: "KG \<Rightarrow> bool" where
  "kg_wf kg \<longleftrightarrow>
     distinct (map name (vertices kg)) \<and>
     (\<forall>v\<in>set (vertices kg). \<forall>u\<in>set (get_neighbors_reverse kg v). u \<in> set (vertices kg))"

subsection \<open>The tables after a pass, in closed form\<close>

text \<open>
  \<open>put_level f n vs\<close> stores \<open>f v\<close> under the name of \<open>v\<close> and the key \<open>n\<close>, for
  every \<open>v\<close> of \<open>vs\<close> in turn; \<open>wl_table\<close> is the Label Table that a pass over a
  well-formed graph leaves (lemma \<open>weisfeiler_lehman_eq\<close>), and \<open>invert_all\<close> the third
  loop applied to the Inverse Label Table.
\<close>

definition put_level ::
  "(vertex \<Rightarrow> 'v) \<Rightarrow> 'j \<Rightarrow> vertex list \<Rightarrow> (string, ('j, 'v) dict) dict \<Rightarrow> (string, ('j, 'v) dict) dict" where
  "put_level f n vs lm = fold (\<lambda>v d. setitem2 d (name v) n (f v)) vs lm"

definition put_levels ::
  "(string \<Rightarrow> string) \<Rightarrow> KG \<Rightarrow> int list \<Rightarrow> (string, (int, string) dict) dict \<Rightarrow> (string, (int, string) dict) dict" where
  "put_levels digest kg ns lm =
     fold (\<lambda>n d. put_level (wl_label digest kg (nat n)) n (vertices kg) d) ns lm"

definition wl_table ::
  "(string \<Rightarrow> string) \<Rightarrow> KG \<Rightarrow> int \<Rightarrow> (string, (int, string) dict) dict \<Rightarrow> (string, (int, string) dict) dict" where
  "wl_table digest kg L lm = put_levels digest kg [1..L] (put_level name 0 (vertices kg) lm)"

definition invert_all ::
  "(string, (int, string) dict) dict \<Rightarrow> vertex list \<Rightarrow> (string, (any, any) dict) dict \<Rightarrow>
     (string, (any, any) dict) dict" where
  "invert_all lm vs im =
     fold (\<lambda>v d. invert_items d (name v) (case map_of lm (name v) of None \<Rightarrow> [] | Some items \<Rightarrow> items)) vs im"

subsection \<open>The inversion of a dictionary\<close>

text \<open>
  The items of a level-to-label dictionary, each turned around, and the inversion of the
  dictionary as the design describes it: from every label to its level.
\<close>

definition swapped :: "(int \<times> string) list \<Rightarrow> (any \<times> any) list" where
  "swapped items = map (\<lambda>(n, l). (AStr l, AInt n)) items"

definition inverse_of :: "(int, string) dict \<Rightarrow> any \<Rightarrow> any option" where
  "inverse_of items = map_of (swapped items)"

text \<open>Every dictionary inside a table has each of its keys once.\<close>

definition inner_distinct :: "('k, ('j, 'v) dict) dict \<Rightarrow> bool" where
  "inner_distinct d \<longleftrightarrow> (\<forall>k items. map_of d k = Some items \<longrightarrow> distinct (map fst items))"

section \<open>Specification of the canonical walks\<close>

text \<open>
  The canonical walk of a raw walk at level \<open>n\<close> as the design describes it: the name
  of the hop at position 0 and at the odd positions, the label of the hop at level
  \<open>n\<close> at the other positions. The positions are counted from \<open>i\<close>.
\<close>

definition canonical_spec ::
  "(string, (int, string) dict) dict \<Rightarrow> int \<Rightarrow> nat \<Rightarrow> vertex list \<Rightarrow> string list" where
  "canonical_spec lm n i hops =
     map (\<lambda>(k, hop). if k = 0 \<or> k mod 2 = 1 then name hop else the (table_get lm (name hop) n))
       (enumerate i hops)"

text \<open>
  The names whose label a walk makes \<^verbatim>\<open>_extract\<close> read, in the order of the reads, and
  all the reads of a call, each with its level: level by level, walk by walk.
\<close>

definition label_reads :: "nat \<Rightarrow> vertex list \<Rightarrow> string list" where
  "label_reads i hops =
     map (\<lambda>(k, hop). name hop) (filter (\<lambda>(k, hop). \<not> (k = 0 \<or> k mod 2 = 1)) (enumerate i hops))"

definition all_reads :: "vertex list list \<Rightarrow> int list \<Rightarrow> (string \<times> int) list" where
  "all_reads walks ns = concat (map (\<lambda>n. map (\<lambda>nm. (nm, n)) (concat (map (label_reads 0) walks))) ns)"

text \<open>The first read of a call that finds no label, if there is one.\<close>

definition first_missing_read :: "WLWalker \<Rightarrow> vertex list list \<Rightarrow> (string \<times> int) option" where
  "first_missing_read self walks =
     find (\<lambda>(nm, n). table_get (label_map self) nm n = None) (all_reads walks [0..wl_iterations self])"

section \<open>A pass over any graph\<close>

text \<open>
  The names whose label of the level before \<^verbatim>\<open>_create_label\<close> reads for a vertex, in the
  order of the reads: the predecessors, then the vertex itself. \<open>q\<close> stands for the
  Label Table at the level before, as a lookup by name; \<open>level_ok\<close> says that every read
  for the vertex finds a label, and \<open>prehash\<close> is the string that is then digested.
\<close>

definition reads_of :: "KG \<Rightarrow> vertex \<Rightarrow> string list" where
  "reads_of kg v = map name (get_neighbors_reverse kg v) @ [name v]"

definition level_ok :: "(string \<Rightarrow> string option) \<Rightarrow> KG \<Rightarrow> vertex \<Rightarrow> bool" where
  "level_ok q kg v = (find (\<lambda>nm. q nm = None) (reads_of kg v) = None)"

definition prehash :: "(string \<Rightarrow> string option) \<Rightarrow> KG \<Rightarrow> vertex \<Rightarrow> string" where
  "prehash q kg v =
     the (q (name v)) @ ''-'' @
     join ''-'' (sorted_list_of_set ((\<lambda>u. the (q (name u))) ` set (get_neighbors_reverse kg v)))"

text \<open>
  The Label Table after the loop over the vertices \<open>vs\<close> at level \<open>n\<close>, with the
  outcome of the loop: the vertices are relabeled in turn up to the first one for which
  a read finds no label; that read raises \<^verbatim>\<open>KeyError\<close>, after it has stored an empty
  dictionary when the name had no entry. The labels of the level before do not change
  during the loop, so they are read from the table as it is when the loop starts.
  \<open>levels_table\<close> does this for a list of levels.
\<close>

fun level_loop ::
  "(string \<Rightarrow> string) \<Rightarrow> (string \<Rightarrow> string option) \<Rightarrow> KG \<Rightarrow> int \<Rightarrow>
     (string, (int, string) dict) dict \<Rightarrow> vertex list \<Rightarrow>
     (string, (int, string) dict) dict \<times> (error + unit)" where
  "level_loop digest q kg n lm [] = (lm, Inr ())"
| "level_loop digest q kg n lm (v # vs) =
     (case find (\<lambda>nm. q nm = None) (reads_of kg v) of
        None \<Rightarrow> level_loop digest q kg n (setitem2 lm (name v) n (digest (prehash q kg v))) vs
      | Some nm \<Rightarrow> (fst (getitem2 lm nm (n - 1)), Inl KeyError))"

definition level_table ::
  "(string \<Rightarrow> string) \<Rightarrow> KG \<Rightarrow> int \<Rightarrow> vertex list \<Rightarrow> (string, (int, string) dict) dict \<Rightarrow>
     (string, (int, string) dict) dict \<times> (error + unit)" where
  "level_table digest kg n vs lm = level_loop digest (\<lambda>nm. table_get lm nm (n - 1)) kg n lm vs"

fun levels_table ::
  "(string \<Rightarrow> string) \<Rightarrow> KG \<Rightarrow> (string, (int, string) dict) dict \<Rightarrow> int list \<Rightarrow>
     (string, (int, string) dict) dict \<times> (error + unit)" where
  "levels_table digest kg lm [] = (lm, Inr ())"
| "levels_table digest kg lm (n # ns) =
     (case level_table digest kg n (vertices kg) lm of
        (lm1, Inl e) \<Rightarrow> (lm1, Inl e)
      | (lm1, Inr u) \<Rightarrow> levels_table digest kg lm1 ns)"

text \<open>
  Of the vertices of a list that bear a name, the last one: its label is the one that
  stays in the table.
\<close>

definition winner :: "vertex list \<Rightarrow> string \<Rightarrow> vertex" where
  "winner vs nm = last (filter (\<lambda>v. name v = nm) vs)"

text \<open>The predecessors that the graph reports bear names of vertices of the graph.\<close>

definition kg_closed :: "KG \<Rightarrow> bool" where
  "kg_closed kg \<longleftrightarrow>
     (\<forall>v\<in>set (vertices kg). \<forall>u\<in>set (get_neighbors_reverse kg v). name u \<in> name ` set (vertices kg))"

section \<open>Example data\<close>

text \<open>
  The examples below are evaluated with \<open>toy_digest\<close> in the place of the MD5 digest:
  it puts a mark in front of the string it is given. \<open>chain_kg\<close> is the graph with
  the edges from A to B and from B to C, and \<open>fresh_walker L\<close> the walker as the
  constructor leaves it for the level count \<open>L\<close>.
\<close>

definition toy_digest :: "string \<Rightarrow> string" where
  "toy_digest s = CHR ''#'' # s"

definition vertex_A :: vertex where
  "vertex_A = Vertex ''A'' False None None"

definition vertex_B :: vertex where
  "vertex_B = Vertex ''B'' False None None"

definition vertex_C :: vertex where
  "vertex_C = Vertex ''C'' False None None"

definition chain_kg :: KG where
  "chain_kg =
     \<lparr>vertices = [vertex_A, vertex_B, vertex_C],
      get_neighbors_reverse =
        (\<lambda>v. if v = vertex_B then [vertex_A] else if v = vertex_C then [vertex_B] else [])\<rparr>"

definition fresh_walker :: "int \<Rightarrow> WLWalker" where
  "fresh_walker L = \<lparr>wl_iterations = L, inv_label_map = [], is_support_remote = False, label_map = []\<rparr>"

definition only_A_kg :: KG where
  "only_A_kg = \<lparr>vertices = [vertex_A], get_neighbors_reverse = (\<lambda>v. [])\<rparr>"



text \<open>
  Two samplers for the examples: one returns the single walk from A over B to C, the
  other the walk that has the root only.
\<close>

definition chain_walks :: "KG \<Rightarrow> vertex \<Rightarrow> vertex list list" where
  "chain_walks kg inst = [[vertex_A, vertex_B, vertex_C]]"

definition root_walks :: "KG \<Rightarrow> vertex \<Rightarrow> vertex list list" where
  "root_walks kg inst = [[inst]]"

text \<open>
  A graph in which two vertices bear one name. The edges lead from A to X and from B
  to X, both with the predicate p, and from A to X with the predicate c: each edge has
  a vertex of its own for its predicate, between its two ends. \<open>shared_kg_reversed\<close>
  is the same graph with its vertices enumerated in the opposite order.
\<close>

definition vertex_X :: vertex where
  "vertex_X = Vertex ''X'' False None None"

definition vertex_p1 :: vertex where
  "vertex_p1 = Vertex ''p'' True (Some vertex_A) (Some vertex_X)"

definition vertex_c1 :: vertex where
  "vertex_c1 = Vertex ''c'' True (Some vertex_A) (Some vertex_X)"

definition vertex_p2 :: vertex where
  "vertex_p2 = Vertex ''p'' True (Some vertex_B) (Some vertex_X)"

definition shared_kg :: KG where
  "shared_kg =
     \<lparr>vertices = [vertex_A, vertex_B, vertex_X, vertex_p1, vertex_c1, vertex_p2],
      get_neighbors_reverse =
        (\<lambda>v. if v = vertex_p1 then [vertex_A] else if v = vertex_c1 then [vertex_A]
              else if v = vertex_p2 then [vertex_B]
              else if v = vertex_X then [vertex_p1, vertex_c1, vertex_p2] else [])\<rparr>"


text \<open>
  A graph that reports a predecessor it does not hold: the vertices are A and B, and the
  predecessor of B is C.
\<close>

definition dangling_kg :: KG where
  "dangling_kg =
     \<lparr>vertices = [vertex_A, vertex_B],
      get_neighbors_reverse = (\<lambda>v. if v = vertex_B then [vertex_C] else [])\<rparr>"

section \<open>Properties\<close>

subsection \<open>Dictionaries\<close>

lemma table_get_setitem2:
  "table_get (setitem2 d k j v) k' j' = (if k' = k \<and> j' = j then Some v else table_get d k' j')"
  by (auto simp: table_get_def setitem2_def defaultdict_getitem_def update_conv' map_add_def
      split: option.splits)

lemma map_of_setitem2_other: "k' \<noteq> k \<Longrightarrow> map_of (setitem2 d k j v) k' = map_of d k'"
  by (auto simp: setitem2_def defaultdict_getitem_def update_conv' map_add_def split: option.splits)

lemma keys_setitem2: "fst ` set (setitem2 d k j v) = insert k (fst ` set d)"
  by (auto simp: setitem2_def defaultdict_getitem_def dom_update split: option.splits)

lemma setitem2_triv: "table_get d k j = Some v \<Longrightarrow> setitem2 d k j v = d"
  by (auto simp: table_get_def setitem2_def defaultdict_getitem_def update_triv split: option.splits)

lemma setitem2_nonempty: "setitem2 d k j v \<noteq> []"
  by (simp add: setitem2_def defaultdict_getitem_def split: option.splits)

lemma getitem2_present: "table_get d k j = Some v \<Longrightarrow> getitem2 d k j = (d, Inr v)"
  by (auto simp: table_get_def getitem2_def defaultdict_getitem_def dict_getitem_def split: option.splits)

lemma getitem2_absent:
  "table_get d k j = None \<Longrightarrow>
     getitem2 d k j = ((if map_of d k = None then d @ [(k, [])] else d), Inl KeyError)"
  by (auto simp: table_get_def getitem2_def defaultdict_getitem_def dict_getitem_def split: option.splits)

lemma getitem2_nonempty: "d \<noteq> [] \<Longrightarrow> fst (getitem2 d k j) \<noteq> []"
  by (auto simp: getitem2_def defaultdict_getitem_def split: option.splits)

subsection \<open>Creating a label when the labels are there\<close>

lemma neighbor_labels_present:
  "\<forall>u\<in>set nbs. table_get lm (name u) m = Some (f u) \<Longrightarrow>
     neighbor_labels lm nbs m = (lm, Inr (map f nbs))"
  by (induction nbs) (simp_all add: getitem2_present)

lemma neighbor_labels_nonempty: "lm \<noteq> [] \<Longrightarrow> fst (neighbor_labels lm nbs m) \<noteq> []"
proof (induction nbs arbitrary: lm)
  case Nil
  then show ?case by simp
next
  case (Cons u nbs)
  obtain lm1 r where g: "getitem2 lm (name u) m = (lm1, r)"
    by (cases "getitem2 lm (name u) m")
  have lm1: "lm1 \<noteq> []"
    using getitem2_nonempty [OF Cons.prems, of "name u" m] g by simp
  show ?case
  proof (cases r)
    case (Inl e)
    with g lm1 show ?thesis by simp
  next
    case (Inr l)
    obtain lm2 r2 where n: "neighbor_labels lm1 nbs m = (lm2, r2)"
      by (cases "neighbor_labels lm1 nbs m")
    have "lm2 \<noteq> []"
      using Cons.IH [OF lm1] n by simp
    with g Inr n show ?thesis
      by (cases r2) simp_all
  qed
qed

lemma create_label_body_present:
  assumes "\<forall>u\<in>set (get_neighbors_reverse kg v). table_get (label_map self) (name u) (n - 1) = Some (f u)"
    and "table_get (label_map self) (name v) (n - 1) = Some own"
  shows "create_label_body self kg v n =
    (self, Inr (own @ ''-'' @ join ''-'' (sorted_list_of_set (f ` set (get_neighbors_reverse kg v)))))"
proof -
  have "neighbor_labels (label_map self) (get_neighbors_reverse kg v) (n - 1) =
      (label_map self, Inr (map f (get_neighbors_reverse kg v)))"
    using assms(1) by (rule neighbor_labels_present)
  moreover have "getitem2 (label_map self) (name v) (n - 1) = (label_map self, Inr own)"
    using assms(2) by (rule getitem2_present)
  ultimately show ?thesis
    by (simp add: create_label_body_def)
qed

lemma create_label_body_nonempty:
  assumes "label_map self \<noteq> []"
  shows "label_map (fst (create_label_body self kg v n)) \<noteq> []"
proof -
  obtain lm1 r where nl: "neighbor_labels (label_map self) (get_neighbors_reverse kg v) (n - 1) = (lm1, r)"
    by (cases "neighbor_labels (label_map self) (get_neighbors_reverse kg v) (n - 1)")
  have lm1: "lm1 \<noteq> []"
    using neighbor_labels_nonempty [OF assms, of "get_neighbors_reverse kg v" "n - 1"] nl by simp
  obtain lm2 r2 where g: "getitem2 lm1 (name v) (n - 1) = (lm2, r2)"
    by (cases "getitem2 lm1 (name v) (n - 1)")
  have lm2: "lm2 \<noteq> []"
    using getitem2_nonempty [OF lm1, of "name v" "n - 1"] g by simp
  show ?thesis
  proof (cases r)
    case (Inl e)
    with nl lm1 show ?thesis by (simp add: create_label_body_def)
  next
    case (Inr ls)
    with nl g lm2 show ?thesis
      by (cases r2) (simp_all add: create_label_body_def)
  qed
qed

subsection \<open>The loops of a pass\<close>

lemma put_level_Nil: "put_level f n [] lm = lm"
  by (simp add: put_level_def)

lemma put_level_Cons: "put_level f n (v # vs) lm = put_level f n vs (setitem2 lm (name v) n (f v))"
  by (simp add: put_level_def)

lemma table_get_put_level_other:
  "j \<noteq> n \<or> nm \<notin> name ` set vs \<Longrightarrow> table_get (put_level f n vs lm) nm j = table_get lm nm j"
  by (induction vs arbitrary: lm) (auto simp: put_level_Nil put_level_Cons table_get_setitem2)

lemma table_get_put_level:
  "distinct (map name vs) \<Longrightarrow> v \<in> set vs \<Longrightarrow> table_get (put_level f n vs lm) (name v) n = Some (f v)"
proof (induction vs arbitrary: lm)
  case Nil
  then show ?case by simp
next
  case (Cons w vs)
  show ?case
  proof (cases "v = w")
    case True
    with Cons.prems have "name v \<notin> name ` set vs" by auto
    then have "table_get (put_level f n vs (setitem2 lm (name w) n (f w))) (name v) n =
        table_get (setitem2 lm (name w) n (f w)) (name v) n"
      by (simp add: table_get_put_level_other)
    with True show ?thesis by (simp add: put_level_Cons table_get_setitem2)
  next
    case False
    with Cons.prems have "distinct (map name vs)" "v \<in> set vs" by auto
    then show ?thesis by (simp add: put_level_Cons Cons.IH)
  qed
qed

lemma put_level_triv:
  "\<forall>v\<in>set vs. table_get lm (name v) n = Some (f v) \<Longrightarrow> put_level f n vs lm = lm"
  by (induction vs) (simp_all add: put_level_Nil put_level_Cons setitem2_triv)

lemma keys_put_level: "fst ` set (put_level f n vs lm) = name ` set vs \<union> fst ` set lm"
  by (induction vs arbitrary: lm) (auto simp: put_level_Nil put_level_Cons keys_setitem2)

lemma init_labels_eq:
  "init_labels self vs =
     self\<lparr>label_map := put_level name 0 vs (label_map self),
          inv_label_map := put_level (\<lambda>v. AStr (name v)) (AInt 0) vs (inv_label_map self)\<rparr>"
  by (induction vs arbitrary: self) (simp_all add: put_level_Nil put_level_Cons)

lemma relabel_vertices_eq:
  assumes "\<forall>v\<in>set vs. table_get (label_map s) (name v) (n - 1) = Some (g v)"
    and "\<forall>v\<in>set vs. \<forall>u\<in>set (get_neighbors_reverse kg v). table_get (label_map s) (name u) (n - 1) = Some (g u)"
  shows "relabel_vertices create_label_body digest kg n s vs =
     (s\<lparr>label_map := put_level (next_label digest kg g) n vs (label_map s)\<rparr>, Inr ())"
  using assms
proof (induction vs arbitrary: s)
  case Nil
  then show ?case by (simp add: put_level_Nil)
next
  case (Cons v vs)
  let ?s1 = "s\<lparr>label_map := setitem2 (label_map s) (name v) n (next_label digest kg g v)\<rparr>"
  have cl: "create_label_body s kg v n =
      (s, Inr (g v @ ''-'' @ join ''-'' (sorted_list_of_set (g ` set (get_neighbors_reverse kg v)))))"
    using Cons.prems by (intro create_label_body_present) simp_all
  have keep: "table_get (label_map ?s1) nm (n - 1) = table_get (label_map s) nm (n - 1)" for nm
    by (simp add: table_get_setitem2)
  have "relabel_vertices create_label_body digest kg n ?s1 vs =
      (?s1\<lparr>label_map := put_level (next_label digest kg g) n vs (label_map ?s1)\<rparr>, Inr ())"
    using Cons.prems by (intro Cons.IH) (simp_all only: keep, simp_all)
  moreover have "digest (g v @ ''-'' @ join ''-'' (sorted_list_of_set (g ` set (get_neighbors_reverse kg v)))) =
      next_label digest kg g v"
    by (simp add: next_label_def)
  ultimately show ?case
    using cl by (simp add: put_level_Cons del: append.simps)
qed

lemma put_levels_Nil: "put_levels digest kg [] lm = lm"
  by (simp add: put_levels_def)

lemma put_levels_Cons:
  "put_levels digest kg (n # ns) lm =
     put_levels digest kg ns (put_level (wl_label digest kg (nat n)) n (vertices kg) lm)"
  by (simp add: put_levels_def)

lemma table_get_put_levels_other:
  "j \<notin> set ns \<or> nm \<notin> name ` set (vertices kg) \<Longrightarrow>
     table_get (put_levels digest kg ns lm) nm j = table_get lm nm j"
  by (induction ns arbitrary: lm)
    (auto simp: put_levels_Nil put_levels_Cons table_get_put_level_other)

lemma table_get_put_levels:
  assumes "distinct (map name (vertices kg))" and "v \<in> set (vertices kg)"
  shows "j \<in> set ns \<Longrightarrow>
     table_get (put_levels digest kg ns lm) (name v) j = Some (wl_label digest kg (nat j) v)"
proof (induction ns arbitrary: lm)
  case Nil
  then show ?case by simp
next
  case (Cons n ns)
  show ?case
  proof (cases "j \<in> set ns")
    case True
    then show ?thesis by (simp add: put_levels_Cons Cons.IH)
  next
    case False
    with Cons.prems have "j = n" by simp
    with False assms show ?thesis
      by (simp add: put_levels_Cons table_get_put_levels_other table_get_put_level)
  qed
qed

lemma keys_put_levels:
  "fst ` set (put_levels digest kg ns lm) = (if ns = [] then {} else name ` set (vertices kg)) \<union> fst ` set lm"
  by (induction ns arbitrary: lm) (auto simp: put_levels_Nil put_levels_Cons keys_put_level)

lemma relabel_levels_eq:
  assumes wf: "kg_wf kg"
  shows "1 \<le> i \<Longrightarrow>
    \<forall>v\<in>set (vertices kg). table_get (label_map s) (name v) (i - 1) = Some (wl_label digest kg (nat (i - 1)) v) \<Longrightarrow>
    relabel_levels create_label_body digest kg s [i..j] =
      (s\<lparr>label_map := put_levels digest kg [i..j] (label_map s)\<rparr>, Inr ())"
proof (induction "nat (j + 1 - i)" arbitrary: i s)
  case 0
  then have "[i..j] = []" by simp
  then show ?case by (simp add: put_levels_Nil)
next
  case (Suc k)
  then have ij: "i \<le> j" by linarith
  then have up: "[i..j] = i # [i + 1..j]" by (rule upto_rec1)
  let ?g = "wl_label digest kg (nat (i - 1))"
  let ?s1 = "s\<lparr>label_map := put_level (wl_label digest kg (nat i)) i (vertices kg) (label_map s)\<rparr>"
  from Suc.prems(1) have nat_i: "nat i = Suc (nat (i - 1))" by linarith
  have nl: "next_label digest kg ?g = wl_label digest kg (nat i)"
    by (rule ext) (simp add: nat_i)
  have closed: "\<forall>v\<in>set (vertices kg). \<forall>u\<in>set (get_neighbors_reverse kg v).
      table_get (label_map s) (name u) (i - 1) = Some (?g u)"
    using wf Suc.prems(2) by (simp add: kg_wf_def)
  have step: "relabel_vertices create_label_body digest kg i s (vertices kg) = (?s1, Inr ())"
    using relabel_vertices_eq [OF Suc.prems(2) closed, of digest] by (simp only: nl)
  have lvl: "\<forall>v\<in>set (vertices kg).
      table_get (label_map ?s1) (name v) (i + 1 - 1) = Some (wl_label digest kg (nat (i + 1 - 1)) v)"
    using wf by (simp add: kg_wf_def table_get_put_level)
  have "nat (j + 1 - (i + 1)) = k" using Suc.hyps(2) by linarith
  then have "relabel_levels create_label_body digest kg ?s1 [i + 1..j] =
      (?s1\<lparr>label_map := put_levels digest kg [i + 1..j] (label_map ?s1)\<rparr>, Inr ())"
    using Suc.prems(1) lvl by (intro Suc.hyps(1)) simp_all
  with step show ?case
    by (simp only: up relabel_levels.simps put_levels_Cons) simp
qed

lemma invert_labels_eq:
  "\<forall>v\<in>set vs. map_of (label_map s) (name v) \<noteq> None \<Longrightarrow>
     invert_labels s vs = s\<lparr>inv_label_map := invert_all (label_map s) vs (inv_label_map s)\<rparr>"
proof (induction vs arbitrary: s)
  case Nil
  then show ?case by (simp add: invert_all_def)
next
  case (Cons v vs)
  then obtain items where items: "map_of (label_map s) (name v) = Some items" by auto
  then have dd: "defaultdict_getitem (label_map s) (name v) = (label_map s, items)"
    by (simp add: defaultdict_getitem_def)
  let ?s1 = "s\<lparr>label_map := label_map s, inv_label_map := invert_items (inv_label_map s) (name v) items\<rparr>"
  have "invert_labels ?s1 vs = ?s1\<lparr>inv_label_map := invert_all (label_map ?s1) vs (inv_label_map ?s1)\<rparr>"
    using Cons.prems by (intro Cons.IH) simp
  with dd items show ?case
    by (simp add: invert_all_def)
qed

lemma table_get_wl_table:
  assumes "distinct (map name (vertices kg))" and "v \<in> set (vertices kg)"
    and "n = 0 \<or> 1 \<le> n \<and> n \<le> L"
  shows "table_get (wl_table digest kg L lm) (name v) n = Some (wl_label digest kg (nat n) v)"
proof (cases "n = 0")
  case True
  with assms(1,2) show ?thesis
    by (simp add: wl_table_def table_get_put_levels_other table_get_put_level)
next
  case False
  with assms(3) have "n \<in> set [1..L]" by simp
  with assms(1,2) show ?thesis
    unfolding wl_table_def by (rule table_get_put_levels)
qed

lemma table_get_wl_table_other:
  "nm \<notin> name ` set (vertices kg) \<or> \<not> (n = 0 \<or> 1 \<le> n \<and> n \<le> L) \<Longrightarrow>
     table_get (wl_table digest kg L lm) nm n = table_get lm nm n"
  by (auto simp: wl_table_def table_get_put_levels_other table_get_put_level_other)

lemma keys_wl_table:
  "fst ` set (wl_table digest kg L lm) = name ` set (vertices kg) \<union> fst ` set lm"
  by (auto simp: wl_table_def keys_put_levels keys_put_level)

lemma weisfeiler_lehman_eq:
  assumes wf: "kg_wf kg"
  shows "weisfeiler_lehman digest self kg =
    (self\<lparr>label_map := wl_table digest kg (wl_iterations self) (label_map self),
          inv_label_map :=
            invert_all (wl_table digest kg (wl_iterations self) (label_map self)) (vertices kg)
              (put_level (\<lambda>v. AStr (name v)) (AInt 0) (vertices kg) (inv_label_map self))\<rparr>,
     Inr ())"
proof -
  let ?s0 = "init_labels self (vertices kg)"
  have s0: "?s0 = self\<lparr>label_map := put_level name 0 (vertices kg) (label_map self),
          inv_label_map := put_level (\<lambda>v. AStr (name v)) (AInt 0) (vertices kg) (inv_label_map self)\<rparr>"
    by (rule init_labels_eq)
  have dist: "distinct (map name (vertices kg))"
    using wf by (simp add: kg_wf_def)
  have lvl0: "\<forall>v\<in>set (vertices kg).
      table_get (label_map ?s0) (name v) (1 - 1) = Some (wl_label digest kg (nat (1 - 1)) v)"
    using dist by (simp add: s0 table_get_put_level)
  have lv: "relabel_levels create_label_body digest kg ?s0 [1..wl_iterations ?s0] =
      (?s0\<lparr>label_map := put_levels digest kg [1..wl_iterations ?s0] (label_map ?s0)\<rparr>, Inr ())"
    using lvl0 by (intro relabel_levels_eq [OF wf]) simp_all
  let ?s1 = "?s0\<lparr>label_map := put_levels digest kg [1..wl_iterations ?s0] (label_map ?s0)\<rparr>"
  have lm1: "label_map ?s1 = wl_table digest kg (wl_iterations self) (label_map self)"
    by (simp add: s0 wl_table_def)
  have pres: "\<forall>v\<in>set (vertices kg). map_of (label_map ?s1) (name v) \<noteq> None"
  proof
    fix v assume "v \<in> set (vertices kg)"
    then have "name v \<in> fst ` set (label_map ?s1)"
      unfolding lm1 keys_wl_table by simp
    then show "map_of (label_map ?s1) (name v) \<noteq> None"
      by (simp add: map_of_eq_None_iff)
  qed
  have "invert_labels ?s1 (vertices kg) =
      ?s1\<lparr>inv_label_map := invert_all (label_map ?s1) (vertices kg) (inv_label_map ?s1)\<rparr>"
    using pres by (rule invert_labels_eq)
  then have inv: "invert_labels ?s1 (vertices kg) =
      self\<lparr>label_map := wl_table digest kg (wl_iterations self) (label_map self),
          inv_label_map :=
            invert_all (wl_table digest kg (wl_iterations self) (label_map self)) (vertices kg)
              (put_level (\<lambda>v. AStr (name v)) (AInt 0) (vertices kg) (inv_label_map self))\<rparr>"
    by (simp add: s0 wl_table_def)
  show ?thesis
    unfolding weisfeiler_lehman_def weisfeiler_lehman_with_def Let_def
    by (simp only: lv prod.case sum.case inv)
qed

subsection \<open>The lazy check inside a pass\<close>

text \<open>
  Inside a pass the table is not empty when \<^verbatim>\<open>_create_label\<close> is called, so the method
  does not start a pass of its own there: the loops of \<open>weisfeiler_lehman\<close> may as
  well call \<open>create_label\<close>, as the source does.
\<close>

lemma create_label_nonempty:
  "label_map s \<noteq> [] \<Longrightarrow> create_label digest s kg v n = create_label_body s kg v n"
  by (simp add: create_label_def)

lemma relabel_vertices_lazy:
  "label_map s \<noteq> [] \<Longrightarrow>
     relabel_vertices (create_label digest) digest kg n s vs =
     relabel_vertices create_label_body digest kg n s vs \<and>
     label_map (fst (relabel_vertices create_label_body digest kg n s vs)) \<noteq> []"
proof (induction vs arbitrary: s)
  case Nil
  then show ?case by simp
next
  case (Cons v vs)
  obtain s1 r where cl: "create_label_body s kg v n = (s1, r)"
    by (cases "create_label_body s kg v n")
  have s1: "label_map s1 \<noteq> []"
    using create_label_body_nonempty [OF Cons.prems, of kg v n] cl by simp
  show ?case
  proof (cases r)
    case (Inl e)
    with cl s1 Cons.prems show ?thesis
      by (simp add: create_label_nonempty)
  next
    case (Inr pre)
    let ?s2 = "s1\<lparr>label_map := setitem2 (label_map s1) (name v) n (digest pre)\<rparr>"
    have "label_map ?s2 \<noteq> []"
      by (simp add: setitem2_nonempty)
    then have "relabel_vertices (create_label digest) digest kg n ?s2 vs =
        relabel_vertices create_label_body digest kg n ?s2 vs \<and>
        label_map (fst (relabel_vertices create_label_body digest kg n ?s2 vs)) \<noteq> []"
      by (rule Cons.IH)
    with cl Inr Cons.prems show ?thesis
      by (simp add: create_label_nonempty)
  qed
qed

lemma relabel_levels_lazy:
  "label_map s \<noteq> [] \<or> vertices kg = [] \<Longrightarrow>
     relabel_levels (create_label digest) digest kg s ns =
     relabel_levels create_label_body digest kg s ns"
proof (induction ns arbitrary: s)
  case Nil
  then show ?case by simp
next
  case (Cons n ns)
  show ?case
  proof (cases "vertices kg = []")
    case True
    then show ?thesis
      using Cons.IH [of s] by simp
  next
    case False
    with Cons.prems have ne: "label_map s \<noteq> []" by simp
    obtain s1 r where rv: "relabel_vertices create_label_body digest kg n s (vertices kg) = (s1, r)"
      by (cases "relabel_vertices create_label_body digest kg n s (vertices kg)")
    from relabel_vertices_lazy [OF ne, of digest kg n "vertices kg"] rv
    have same: "relabel_vertices (create_label digest) digest kg n s (vertices kg) = (s1, r)"
      and s1: "label_map s1 \<noteq> []"
      by simp_all
    show ?thesis
    proof (cases r)
      case (Inl e)
      with rv same show ?thesis by simp
    next
      case (Inr u)
      with rv same Cons.IH [of s1] s1 show ?thesis by simp
    qed
  qed
qed

lemma weisfeiler_lehman_unfold:
  "weisfeiler_lehman digest self kg = weisfeiler_lehman_with (create_label digest) digest self kg"
proof -
  let ?s0 = "init_labels self (vertices kg)"
  have "fst ` set (label_map ?s0) = name ` set (vertices kg) \<union> fst ` set (label_map self)"
    by (simp add: init_labels_eq keys_put_level)
  then have "label_map ?s0 \<noteq> [] \<or> vertices kg = []"
    by (cases "vertices kg") auto
  then have "relabel_levels (create_label digest) digest kg ?s0 [1..wl_iterations ?s0] =
      relabel_levels create_label_body digest kg ?s0 [1..wl_iterations ?s0]"
    by (rule relabel_levels_lazy)
  then show ?thesis
    by (simp only: weisfeiler_lehman_def weisfeiler_lehman_with_def Let_def)
qed

subsection \<open>The labels after a pass\<close>

lemma stored_label_after:
  assumes "kg_wf kg" and "v \<in> set (vertices kg)" and "n = 0 \<or> 1 \<le> n \<and> n \<le> wl_iterations self"
  shows "stored_label (fst (weisfeiler_lehman digest self kg)) (name v) n = Some (wl_label digest kg (nat n) v)"
  using assms
  by (simp add: weisfeiler_lehman_eq stored_label_def table_get_wl_table kg_wf_def)

subsection \<open>A pass over a walker that has relabeled before\<close>

lemma table_get_setitem2_mono:
  "table_get d k' j' \<noteq> None \<Longrightarrow> table_get (setitem2 d k j v) k' j' \<noteq> None"
  by (simp add: table_get_setitem2)

lemma table_get_put_level_mono:
  "table_get lm nm j \<noteq> None \<Longrightarrow> table_get (put_level f n vs lm) nm j \<noteq> None"
proof (induction vs arbitrary: lm)
  case Nil
  then show ?case by (simp add: put_level_Nil)
next
  case (Cons v vs)
  from Cons.prems have "table_get (setitem2 lm (name v) n (f v)) nm j \<noteq> None"
    by (rule table_get_setitem2_mono)
  then have "table_get (put_level f n vs (setitem2 lm (name v) n (f v))) nm j \<noteq> None"
    by (rule Cons.IH)
  then show ?case unfolding put_level_Cons .
qed

lemma table_get_invert_items_mono:
  "table_get im nm' k \<noteq> None \<Longrightarrow> table_get (invert_items im nm items) nm' k \<noteq> None"
proof (induction items arbitrary: im)
  case Nil
  then show ?case by simp
next
  case (Cons item items)
  obtain j l where item: "item = (j, l)" by (cases item)
  from Cons.prems have "table_get (setitem2 im nm (AStr l) (AInt j)) nm' k \<noteq> None"
    by (rule table_get_setitem2_mono)
  then have "table_get (invert_items (setitem2 im nm (AStr l) (AInt j)) nm items) nm' k \<noteq> None"
    by (rule Cons.IH)
  then show ?case unfolding item invert_items.simps .
qed

lemma invert_all_Cons:
  "invert_all lm (v # vs) im =
     invert_all lm vs (invert_items im (name v) (case map_of lm (name v) of None \<Rightarrow> [] | Some items \<Rightarrow> items))"
  by (simp add: invert_all_def)

lemma table_get_invert_all_mono:
  "table_get im nm k \<noteq> None \<Longrightarrow> table_get (invert_all lm vs im) nm k \<noteq> None"
proof (induction vs arbitrary: im)
  case Nil
  then show ?case by (simp add: invert_all_def)
next
  case (Cons v vs)
  let ?im1 = "invert_items im (name v) (case map_of lm (name v) of None \<Rightarrow> [] | Some items \<Rightarrow> items)"
  from Cons.prems have "table_get ?im1 nm k \<noteq> None"
    by (rule table_get_invert_items_mono)
  then have "table_get (invert_all lm vs ?im1) nm k \<noteq> None"
    by (rule Cons.IH)
  then show ?case unfolding invert_all_Cons .
qed

text \<open>
  Claim C5, as the code has it. A pass does not empty the tables first. Over a
  well-formed graph it returns normally; for every vertex of the graph, at level 0 and at
  every level from 1 to the level count, the Label Table then holds what a pass of a
  walker with empty tables stores there; every other entry of the Label Table is as it
  was before the pass; and no entry of the Inverse Label Table is removed.
\<close>

theorem relabel_overwrites_but_keeps_other_entries:
  assumes "kg_wf kg"
  shows "snd (weisfeiler_lehman digest self kg) = Inr () \<and>
    (\<forall>v\<in>set (vertices kg). \<forall>n. n = 0 \<or> 1 \<le> n \<and> n \<le> wl_iterations self \<longrightarrow>
       stored_label (fst (weisfeiler_lehman digest self kg)) (name v) n =
       stored_label (fst (weisfeiler_lehman digest (self\<lparr>inv_label_map := [], label_map := []\<rparr>) kg)) (name v) n) \<and>
    (\<forall>nm n. nm \<notin> name ` set (vertices kg) \<or> \<not> (n = 0 \<or> 1 \<le> n \<and> n \<le> wl_iterations self) \<longrightarrow>
       stored_label (fst (weisfeiler_lehman digest self kg)) nm n = stored_label self nm n) \<and>
    (\<forall>nm k. table_get (inv_label_map self) nm k \<noteq> None \<longrightarrow>
       table_get (inv_label_map (fst (weisfeiler_lehman digest self kg))) nm k \<noteq> None)"
proof -
  have ok: "snd (weisfeiler_lehman digest self kg) = Inr ()"
    using assms by (simp add: weisfeiler_lehman_eq)
  have same: "stored_label (fst (weisfeiler_lehman digest self kg)) (name v) n =
       stored_label (fst (weisfeiler_lehman digest (self\<lparr>inv_label_map := [], label_map := []\<rparr>) kg)) (name v) n"
    if "v \<in> set (vertices kg)" and "n = 0 \<or> 1 \<le> n \<and> n \<le> wl_iterations self" for v n
    using assms that by (simp add: stored_label_after)
  have other: "stored_label (fst (weisfeiler_lehman digest self kg)) nm n = stored_label self nm n"
    if "nm \<notin> name ` set (vertices kg) \<or> \<not> (n = 0 \<or> 1 \<le> n \<and> n \<le> wl_iterations self)" for nm n
    using assms that by (simp add: weisfeiler_lehman_eq stored_label_def table_get_wl_table_other)
  have inv: "table_get (inv_label_map (fst (weisfeiler_lehman digest self kg))) nm k \<noteq> None"
    if "table_get (inv_label_map self) nm k \<noteq> None" for nm k
  proof -
    from that have "table_get (put_level (\<lambda>v. AStr (name v)) (AInt 0) (vertices kg) (inv_label_map self)) nm k \<noteq> None"
      by (rule table_get_put_level_mono)
    then have "table_get (invert_all (wl_table digest kg (wl_iterations self) (label_map self)) (vertices kg)
        (put_level (\<lambda>v. AStr (name v)) (AInt 0) (vertices kg) (inv_label_map self))) nm k \<noteq> None"
      by (rule table_get_invert_all_mono)
    then show ?thesis
      using assms by (simp add: weisfeiler_lehman_eq)
  qed
  from ok same other inv show ?thesis by blast
qed

theorem relabel_overwrites_but_keeps_other_entries_witness:
  "kg_wf only_A_kg \<and>
   snd (weisfeiler_lehman toy_digest (fst (weisfeiler_lehman toy_digest (fresh_walker 1) chain_kg)) only_A_kg) = Inr () \<and>
   stored_label (fst (weisfeiler_lehman toy_digest (fst (weisfeiler_lehman toy_digest (fresh_walker 1) chain_kg)) only_A_kg)) ''A'' 1 =
     stored_label (fst (weisfeiler_lehman toy_digest (fresh_walker 1) only_A_kg)) ''A'' 1 \<and>
   stored_label (fst (weisfeiler_lehman toy_digest (fst (weisfeiler_lehman toy_digest (fresh_walker 1) chain_kg)) only_A_kg)) ''B'' 1 =
     Some ''#B-A''"
proof -
  let ?old = "fst (weisfeiler_lehman toy_digest (fresh_walker 1) chain_kg)"
  have wf: "kg_wf only_A_kg" by code_simp
  note inst = relabel_overwrites_but_keeps_other_entries [OF wf, of toy_digest ?old]
  have L: "wl_iterations ?old = 1" by code_simp
  have fresh: "?old\<lparr>inv_label_map := [], label_map := []\<rparr> = fresh_walker 1" by code_simp
  have A: "vertex_A \<in> set (vertices only_A_kg)" "name vertex_A = ''A''" by code_simp+
  have B: "''B'' \<notin> name ` set (vertices only_A_kg)" by code_simp
  have old_B: "stored_label ?old ''B'' 1 = Some ''#B-A''" by code_simp
  from inst A L have "stored_label (fst (weisfeiler_lehman toy_digest ?old only_A_kg)) ''A'' 1 =
      stored_label (fst (weisfeiler_lehman toy_digest (?old\<lparr>inv_label_map := [], label_map := []\<rparr>) only_A_kg)) ''A'' 1"
    by (metis order_refl)
  moreover from inst B have "stored_label (fst (weisfeiler_lehman toy_digest ?old only_A_kg)) ''B'' 1 = stored_label ?old ''B'' 1"
    by blast
  ultimately show ?thesis
    using wf inst fresh old_B by simp
qed

text \<open>
  Claim C5 as stated fails. A walker relabels the graph with the edges from A to B and
  from B to C, and then a graph that has the vertex A only. The label of B is still in
  its Label Table, and a walker with empty tables has none after a pass over that graph.
\<close>

theorem relabel_keeps_stale_entries_counterexample:
  "stored_label (fst (weisfeiler_lehman toy_digest (fst (weisfeiler_lehman toy_digest (fresh_walker 1) chain_kg)) only_A_kg)) ''B'' 0 = Some ''B'' \<and>
   stored_label (fst (weisfeiler_lehman toy_digest (fresh_walker 1) only_A_kg)) ''B'' 0 = None \<and>
   label_map (fst (weisfeiler_lehman toy_digest (fst (weisfeiler_lehman toy_digest (fresh_walker 1) chain_kg)) only_A_kg)) \<noteq>
   label_map (fst (weisfeiler_lehman toy_digest (fresh_walker 1) only_A_kg)) \<and>
   inv_label_map (fst (weisfeiler_lehman toy_digest (fst (weisfeiler_lehman toy_digest (fresh_walker 1) chain_kg)) only_A_kg)) \<noteq>
   inv_label_map (fst (weisfeiler_lehman toy_digest (fresh_walker 1) only_A_kg))"
  by code_simp

subsection \<open>Construction\<close>

text \<open>
  Claim C4, as the code has it. The constructor checks the type of the level count and
  nothing else: every integer is accepted and becomes the level count, the positive
  ones and the others alike; a boolean is accepted as the integer it is; a string and
  \<^verbatim>\<open>None\<close> are rejected with \<^verbatim>\<open>TypeError\<close>; without the argument the level count is 4.
\<close>

theorem constructor_checks_type_only:
  "(\<forall>i. WLWalker_init (Some (PyInt i)) = Inr (fresh_walker i)) \<and>
   (\<forall>b. WLWalker_init (Some (PyBool b)) = Inr (fresh_walker (if b then 1 else 0))) \<and>
   (\<forall>s. WLWalker_init (Some (PyStr s)) = Inl TypeError) \<and>
   WLWalker_init (Some PyNone) = Inl TypeError \<and>
   WLWalker_init None = Inr (fresh_walker 4)"
  by (simp add: WLWalker_init_def fresh_walker_def)

text \<open>
  Claim C4 as stated fails: the level counts 0 and -3 are not positive, and the
  constructor returns a walker for each of them.
\<close>

theorem constructor_accepts_nonpositive_counterexample:
  "\<not> 0 < (0::int) \<and>
   WLWalker_init (Some (PyInt 0)) =
     Inr \<lparr>wl_iterations = 0, inv_label_map = [], is_support_remote = False, label_map = []\<rparr> \<and>
   \<not> 0 < (- 3::int) \<and>
   WLWalker_init (Some (PyInt (- 3))) =
     Inr \<lparr>wl_iterations = - 3, inv_label_map = [], is_support_remote = False, label_map = []\<rparr>"
  by (simp add: WLWalker_init_def)

subsection \<open>The Inverse Label Table\<close>

lemma swapped_Cons: "swapped ((j, l) # items) = (AStr l, AInt j) # swapped items"
  by (simp add: swapped_def)

lemma swapped_key_int: "map_of (rev (swapped items)) (AInt i) = None"
  by (auto simp: map_of_eq_None_iff swapped_def)

lemma swapped_Some:
  "map_of (rev (swapped items)) (AStr s) = Some y \<Longrightarrow> \<exists>n. y = AInt n \<and> (n, s) \<in> set items"
  by (auto dest!: map_of_SomeD simp: swapped_def)

lemma swapped_member:
  assumes "(n, s) \<in> set items"
  shows "\<exists>m. map_of (rev (swapped items)) (AStr s) = Some (AInt m) \<and> (m, s) \<in> set items"
proof -
  from assms have "AStr s \<in> fst ` set (rev (swapped items))"
    by (force simp: swapped_def)
  then obtain y where y: "map_of (rev (swapped items)) (AStr s) = Some y"
    by (cases "map_of (rev (swapped items)) (AStr s)") (simp_all add: map_of_eq_None_iff)
  with swapped_Some [OF y] show ?thesis by blast
qed

lemma table_get_invert_items:
  "table_get (invert_items im nm items) nm' k =
     (if nm' = nm
      then (case map_of (rev (swapped items)) k of None \<Rightarrow> table_get im nm k | Some y \<Rightarrow> Some y)
      else table_get im nm' k)"
proof (induction items arbitrary: im)
  case Nil
  then show ?case by (simp add: swapped_def)
next
  case (Cons item items)
  obtain j l where item: "item = (j, l)" by (cases item)
  show ?case
    unfolding item invert_items.simps Cons.IH swapped_Cons
    by (simp add: table_get_setitem2 map_add_def split: option.split)
qed

lemma table_get_invert_all:
  "table_get (invert_all lm vs im) nm k =
     (if nm \<in> name ` set vs
      then (case map_of (rev (swapped (case map_of lm nm of None \<Rightarrow> [] | Some items \<Rightarrow> items))) k of
              None \<Rightarrow> table_get im nm k | Some y \<Rightarrow> Some y)
      else table_get im nm k)"
proof (induction vs arbitrary: im)
  case Nil
  then show ?case by (simp add: invert_all_def)
next
  case (Cons v vs)
  show ?case
    unfolding invert_all_Cons Cons.IH
    by (simp add: table_get_invert_items split: option.split)
qed

lemma keys_invert_items:
  "fst ` set (invert_items im nm items) = (if items = [] then {} else {nm}) \<union> fst ` set im"
proof (induction items arbitrary: im)
  case Nil
  then show ?case by simp
next
  case (Cons item items)
  obtain j l where item: "item = (j, l)" by (cases item)
  show ?case
    unfolding item invert_items.simps Cons.IH
    by (auto simp: keys_setitem2)
qed

lemma keys_invert_all:
  "fst ` set im \<subseteq> fst ` set (invert_all lm vs im) \<and>
   fst ` set (invert_all lm vs im) \<subseteq> name ` set vs \<union> fst ` set im"
proof (induction vs arbitrary: im)
  case Nil
  then show ?case by (simp add: invert_all_def)
next
  case (Cons v vs)
  define im1 where "im1 = invert_items im (name v) (case map_of lm (name v) of None \<Rightarrow> [] | Some items \<Rightarrow> items)"
  define K where "K = fst ` set im"
  define K1 where "K1 = fst ` set im1"
  define K2 where "K2 = fst ` set (invert_all lm vs im1)"
  define N where "N = name ` set vs"
  have "K1 = (if (case map_of lm (name v) of None \<Rightarrow> [] | Some items \<Rightarrow> items) = [] then {} else {name v}) \<union> K"
    unfolding K1_def K_def im1_def by (rule keys_invert_items)
  then have step: "K \<subseteq> K1" "K1 \<subseteq> insert (name v) K"
    by (auto split: if_splits)
  have ih: "K1 \<subseteq> K2" "K2 \<subseteq> N \<union> K1"
    using Cons.IH [of im1] by (simp_all add: K1_def K2_def N_def)
  from step ih have "K \<subseteq> K2" "K2 \<subseteq> insert (name v) N \<union> K"
    by blast+
  then show ?case
    unfolding invert_all_Cons by (simp add: K_def K2_def N_def im1_def)
qed

lemma map_of_setitem2:
  "map_of (setitem2 d k j v) k' =
     (if k' = k then Some (AList.update j v (case map_of d k of None \<Rightarrow> [] | Some inner \<Rightarrow> inner))
      else map_of d k')"
  by (auto simp: setitem2_def defaultdict_getitem_def update_conv' map_add_def split: option.splits)

lemma inner_distinct_Nil: "inner_distinct []"
  by (simp add: inner_distinct_def)

lemma inner_distinct_setitem2: "inner_distinct d \<Longrightarrow> inner_distinct (setitem2 d k j v)"
  unfolding inner_distinct_def map_of_setitem2
  by (auto intro!: distinct_update split: option.splits if_splits)

lemma inner_distinct_put_level: "inner_distinct d \<Longrightarrow> inner_distinct (put_level f n vs d)"
  by (induction vs arbitrary: d) (simp_all add: put_level_Nil put_level_Cons inner_distinct_setitem2)

lemma table_get_items:
  "inner_distinct d \<Longrightarrow> map_of d k = Some items \<Longrightarrow> (table_get d k j = Some x) = ((j, x) \<in> set items)"
  by (simp add: table_get_def inner_distinct_def)

subsection \<open>Canonical walks\<close>

lemma find_app:
  "find P (xs @ ys) = (case find P xs of None \<Rightarrow> find P ys | Some x \<Rightarrow> Some x)"
  by (induction xs) simp_all

lemma find_tagged:
  "find (\<lambda>(nm, n). P nm n) (map (\<lambda>nm. (nm, m)) xs) = map_option (\<lambda>nm. (nm, m)) (find (\<lambda>nm. P nm m) xs)"
  by (induction xs) simp_all

lemma label_reads_Nil: "label_reads i [] = []"
  by (simp add: label_reads_def)

lemma label_reads_Cons:
  "label_reads i (hop # hops) =
     (if i = 0 \<or> i mod 2 = 1 then label_reads (Suc i) hops else name hop # label_reads (Suc i) hops)"
  by (simp add: label_reads_def)

lemma canonical_spec_Nil: "canonical_spec lm n i [] = []"
  by (simp add: canonical_spec_def)

lemma canonical_spec_Cons:
  "canonical_spec lm n i (hop # hops) =
     (if i = 0 \<or> i mod 2 = 1 then name hop else the (table_get lm (name hop) n)) #
     canonical_spec lm n (Suc i) hops"
  by (simp add: canonical_spec_def)

lemma canonical_walk_eq:
  "canonical_walk lm n i acc hops =
     (case find (\<lambda>nm. table_get lm nm n = None) (label_reads i hops) of
        None \<Rightarrow> (lm, Inr (acc @ canonical_spec lm n i hops))
      | Some nm \<Rightarrow> (fst (getitem2 lm nm n), Inl KeyError))"
proof (induction hops arbitrary: i acc)
  case Nil
  then show ?case by (simp add: label_reads_Nil canonical_spec_Nil)
next
  case (Cons hop hops)
  show ?case
  proof (cases "i = 0 \<or> i mod 2 = 1")
    case True
    then show ?thesis
      by (simp add: Cons.IH label_reads_Cons canonical_spec_Cons split: option.split)
  next
    case False
    show ?thesis
    proof (cases "table_get lm (name hop) n")
      case None
      with False show ?thesis
        by (simp add: getitem2_absent label_reads_Cons)
    next
      case (Some l)
      with False show ?thesis
        by (simp add: getitem2_present Cons.IH label_reads_Cons canonical_spec_Cons split: option.split)
    qed
  qed
qed

lemma canonical_walks_at_eq:
  "canonical_walks_at lm n cws walks =
     (case find (\<lambda>nm. table_get lm nm n = None) (concat (map (label_reads 0) walks)) of
        None \<Rightarrow> (lm, Inr (cws \<union> canonical_spec lm n 0 ` set walks))
      | Some nm \<Rightarrow> (fst (getitem2 lm nm n), Inl KeyError))"
proof (induction walks arbitrary: cws)
  case Nil
  then show ?case by simp
next
  case (Cons walk walks)
  show ?case
  proof (cases "find (\<lambda>nm. table_get lm nm n = None) (label_reads 0 walk)")
    case None
    then show ?thesis
      by (simp add: canonical_walk_eq Cons.IH find_app split: option.split)
  next
    case (Some nm)
    then show ?thesis
      by (simp add: canonical_walk_eq find_app)
  qed
qed

lemma all_reads_Nil: "all_reads walks [] = []"
  by (simp add: all_reads_def)

lemma all_reads_Cons:
  "all_reads walks (n # ns) = map (\<lambda>nm. (nm, n)) (concat (map (label_reads 0) walks)) @ all_reads walks ns"
  by (simp add: all_reads_def)

lemma canonical_walks_levels_eq:
  "canonical_walks_levels lm cws walks ns =
     (case find (\<lambda>(nm, n). table_get lm nm n = None) (all_reads walks ns) of
        None \<Rightarrow> (lm, Inr (cws \<union> (\<Union>n\<in>set ns. canonical_spec lm n 0 ` set walks)))
      | Some (nm, n) \<Rightarrow> (fst (getitem2 lm nm n), Inl KeyError))"
proof (induction ns arbitrary: cws)
  case Nil
  then show ?case by (simp add: all_reads_Nil)
next
  case (Cons n ns)
  show ?case
  proof (cases "find (\<lambda>nm. table_get lm nm n = None) (concat (map (label_reads 0) walks))")
    case None
    then show ?thesis
      by (simp add: canonical_walks_at_eq Cons.IH all_reads_Cons find_app find_tagged Un_assoc
          split: option.split)
  next
    case (Some nm)
    then show ?thesis
      by (simp add: canonical_walks_at_eq all_reads_Cons find_app find_tagged)
  qed
qed

lemma extract_instance_eq:
  "extract_instance extract_walks self kg inst =
     (case first_missing_read self (extract_walks kg inst) of
        None \<Rightarrow>
          (self, Inr [(name inst,
             \<Union>n\<in>{0..wl_iterations self}. canonical_spec (label_map self) n 0 ` set (extract_walks kg inst))])
      | Some (nm, n) \<Rightarrow> (self\<lparr>label_map := fst (getitem2 (label_map self) nm n)\<rparr>, Inl KeyError))"
  by (simp add: extract_instance_def first_missing_read_def canonical_walks_levels_eq
      split: option.split prod.split)

lemma find_SomeD: "find P xs = Some x \<Longrightarrow> x \<in> set xs \<and> P x"
  by (induction xs) (auto split: if_splits)

lemma find_NoneD: "find P xs = None \<Longrightarrow> x \<in> set xs \<Longrightarrow> \<not> P x"
  by (auto simp: find_None_iff)

lemma in_label_reads:
  "(nm \<in> set (label_reads 0 w)) = (\<exists>i<length w. \<not> (i = 0 \<or> i mod 2 = 1) \<and> nm = name (w ! i))"
proof -
  have "(nm \<in> set (label_reads 0 w)) =
      (\<exists>p. p \<in> set (enumerate 0 w) \<and> \<not> (fst p = 0 \<or> fst p mod 2 = 1) \<and> nm = name (snd p))"
    unfolding label_reads_def by (auto simp: image_iff)
  also have "\<dots> = (\<exists>i<length w. \<not> (i = 0 \<or> i mod 2 = 1) \<and> nm = name (w ! i))"
    unfolding in_set_enumerate_eq
  proof
    assume "\<exists>p. (0 \<le> fst p \<and> fst p < length w + 0 \<and> w ! (fst p - 0) = snd p) \<and>
        \<not> (fst p = 0 \<or> fst p mod 2 = 1) \<and> nm = name (snd p)"
    then obtain p where "fst p < length w" "w ! fst p = snd p"
      "\<not> (fst p = 0 \<or> fst p mod 2 = 1)" "nm = name (snd p)" by auto
    then have "fst p < length w \<and> \<not> (fst p = 0 \<or> fst p mod 2 = 1) \<and> nm = name (w ! fst p)"
      by simp
    then show "\<exists>i<length w. \<not> (i = 0 \<or> i mod 2 = 1) \<and> nm = name (w ! i)" by blast
  next
    assume "\<exists>i<length w. \<not> (i = 0 \<or> i mod 2 = 1) \<and> nm = name (w ! i)"
    then obtain i where i: "i < length w" "\<not> (i = 0 \<or> i mod 2 = 1)" "nm = name (w ! i)" by blast
    then have "(0 \<le> fst (i, w ! i) \<and> fst (i, w ! i) < length w + 0 \<and> w ! (fst (i, w ! i) - 0) = snd (i, w ! i)) \<and>
        \<not> (fst (i, w ! i) = 0 \<or> fst (i, w ! i) mod 2 = 1) \<and> nm = name (snd (i, w ! i))"
      by simp
    then show "\<exists>p. (0 \<le> fst p \<and> fst p < length w + 0 \<and> w ! (fst p - 0) = snd p) \<and>
        \<not> (fst p = 0 \<or> fst p mod 2 = 1) \<and> nm = name (snd p)" by (rule exI)
  qed
  finally show ?thesis .
qed

lemma in_all_reads:
  "((nm, n) \<in> set (all_reads walks ns)) =
     (n \<in> set ns \<and> (\<exists>w\<in>set walks. \<exists>i<length w. \<not> (i = 0 \<or> i mod 2 = 1) \<and> nm = name (w ! i)))"
proof -
  have "((nm, n) \<in> set (all_reads walks ns)) = (n \<in> set ns \<and> (\<exists>w\<in>set walks. nm \<in> set (label_reads 0 w)))"
    unfolding all_reads_def by auto
  then show ?thesis
    by (simp only: in_label_reads)
qed

lemma length_canonical_spec: "length (canonical_spec lm n i hops) = length hops"
  by (simp add: canonical_spec_def)

lemma nth_canonical_spec:
  "i < length w \<Longrightarrow>
     canonical_spec lm n 0 w ! i =
       (if i = 0 \<or> i mod 2 = 1 then name (w ! i) else the (table_get lm (name (w ! i)) n))"
  by (simp add: canonical_spec_def nth_enumerate_eq)

lemma canonical_spec_iff:
  "(c = canonical_spec lm n 0 w) =
     (length c = length w \<and>
      (\<forall>i<length w. c ! i = (if i = 0 \<or> i mod 2 = 1 then name (w ! i) else the (table_get lm (name (w ! i)) n))))"
  by (simp add: list_eq_iff_nth_eq [of c "canonical_spec lm n 0 w"] length_canonical_spec
      nth_canonical_spec cong: conj_cong)

lemma first_missing_read_None:
  "(first_missing_read self walks = None) =
     (\<forall>w\<in>set walks. \<forall>i\<in>{..<length w}. \<forall>n\<in>{0..wl_iterations self}.
        i = 0 \<or> i mod 2 = 1 \<or> stored_label self (name (w ! i)) n \<noteq> None)"
proof
  assume none: "first_missing_read self walks = None"
  show "\<forall>w\<in>set walks. \<forall>i\<in>{..<length w}. \<forall>n\<in>{0..wl_iterations self}.
        i = 0 \<or> i mod 2 = 1 \<or> stored_label self (name (w ! i)) n \<noteq> None"
  proof (intro ballI)
    fix w i n
    assume w: "w \<in> set walks" and i: "i \<in> {..<length w}" and n: "n \<in> {0..wl_iterations self}"
    show "i = 0 \<or> i mod 2 = 1 \<or> stored_label self (name (w ! i)) n \<noteq> None"
    proof (cases "i = 0 \<or> i mod 2 = 1")
      case True
      then show ?thesis by blast
    next
      case False
      moreover from i have "i < length w" by simp
      moreover from n have "n \<in> set [0..wl_iterations self]" by simp
      ultimately have "(name (w ! i), n) \<in> set (all_reads walks [0..wl_iterations self])"
        unfolding in_all_reads using w by blast
      with none have "\<not> (case (name (w ! i), n) of (nm, n) \<Rightarrow> table_get (label_map self) nm n = None)"
        unfolding first_missing_read_def by (rule find_NoneD)
      then show ?thesis by (simp add: stored_label_def)
    qed
  qed
next
  assume all: "\<forall>w\<in>set walks. \<forall>i\<in>{..<length w}. \<forall>n\<in>{0..wl_iterations self}.
        i = 0 \<or> i mod 2 = 1 \<or> stored_label self (name (w ! i)) n \<noteq> None"
  show "first_missing_read self walks = None"
  proof (cases "first_missing_read self walks")
    case None
    then show ?thesis .
  next
    case (Some r)
    obtain nm n where r: "r = (nm, n)" by (cases r)
    from Some have "(nm, n) \<in> set (all_reads walks [0..wl_iterations self])"
      and missing: "table_get (label_map self) nm n = None"
      unfolding first_missing_read_def r by (auto dest: find_SomeD)
    then obtain w i where wi: "w \<in> set walks" "i < length w" "\<not> (i = 0 \<or> i mod 2 = 1)" "nm = name (w ! i)"
      and "n \<in> set [0..wl_iterations self]"
      unfolding in_all_reads by blast
    then have "i \<in> {..<length w}" "n \<in> {0..wl_iterations self}" by simp_all
    with all wi have "stored_label self nm n \<noteq> None"
      by blast
    with missing show ?thesis by (simp add: stored_label_def)
  qed
qed

lemma first_missing_read_Some:
  assumes "first_missing_read self walks = Some (nm, n)"
  shows "stored_label self nm n = None \<and> 0 \<le> n \<and> n \<le> wl_iterations self \<and>
    (\<exists>w\<in>set walks. \<exists>i<length w. \<not> (i = 0 \<or> i mod 2 = 1) \<and> nm = name (w ! i))"
proof -
  from assms have "(nm, n) \<in> set (all_reads walks [0..wl_iterations self])"
    and "table_get (label_map self) nm n = None"
    unfolding first_missing_read_def by (auto dest: find_SomeD)
  then show ?thesis
    unfolding in_all_reads stored_label_def by simp
qed


text \<open>
  Claim C2. When the Label Table holds a label at every level from 0 to the level count
  for every hop at an even position other than 0 of the raw walks, \<^verbatim>\<open>_extract\<close> returns,
  under the name of the instance, a set of canonical walks and leaves the walker as it
  was. A list \<open>c\<close> is in the set exactly when it is the canonical walk of a raw walk
  \<open>w\<close> at a level \<open>n\<close> from 0 to the level count: it is as long as \<open>w\<close>, it has
  the name of the hop at position 0 and at the odd positions, and the stored label of
  the hop at level \<open>n\<close> at the other positions.
\<close>

theorem canonical_walks_of_instance:
  assumes "\<forall>w\<in>set (extract_walks kg inst). \<forall>i\<in>{..<length w}. \<forall>n\<in>{0..wl_iterations self}.
      i = 0 \<or> i mod 2 = 1 \<or> stored_label self (name (w ! i)) n \<noteq> None"
  shows "\<exists>cws. extract_instance extract_walks self kg inst = (self, Inr [(name inst, cws)]) \<and>
    (\<forall>c. (c \<in> cws) =
       (\<exists>w\<in>set (extract_walks kg inst). \<exists>n\<in>{0..wl_iterations self}.
          length c = length w \<and>
          (\<forall>i<length w. c ! i =
             (if i = 0 \<or> i mod 2 = 1 then name (w ! i) else the (stored_label self (name (w ! i)) n)))))"
proof -
  let ?cws = "\<Union>n\<in>{0..wl_iterations self}. canonical_spec (label_map self) n 0 ` set (extract_walks kg inst)"
  from assms have "first_missing_read self (extract_walks kg inst) = None"
    by (simp only: first_missing_read_None)
  then have res: "extract_instance extract_walks self kg inst = (self, Inr [(name inst, ?cws)])"
    by (simp add: extract_instance_eq)
  have "(c \<in> ?cws) =
       (\<exists>w\<in>set (extract_walks kg inst). \<exists>n\<in>{0..wl_iterations self}.
          length c = length w \<and>
          (\<forall>i<length w. c ! i =
             (if i = 0 \<or> i mod 2 = 1 then name (w ! i) else the (stored_label self (name (w ! i)) n))))" for c
  proof -
    have "(c \<in> ?cws) =
        (\<exists>w\<in>set (extract_walks kg inst). \<exists>n\<in>{0..wl_iterations self}. c = canonical_spec (label_map self) n 0 w)"
      by blast
    then show ?thesis
      by (simp only: canonical_spec_iff stored_label_def)
  qed
  with res show ?thesis by blast
qed

theorem canonical_walks_of_instance_witness:
  "first_missing_read (fst (weisfeiler_lehman toy_digest (fresh_walker 1) chain_kg))
     (chain_walks chain_kg vertex_A) = None \<and>
   (\<exists>cws. extract_instance chain_walks (fst (weisfeiler_lehman toy_digest (fresh_walker 1) chain_kg)) chain_kg vertex_A =
      (fst (weisfeiler_lehman toy_digest (fresh_walker 1) chain_kg), Inr [(name vertex_A, cws)])) \<and>
   snd (extract_instance chain_walks (fst (weisfeiler_lehman toy_digest (fresh_walker 1) chain_kg)) chain_kg vertex_A) =
     Inr [(''A'', {[''A'', ''B'', ''C''], [''A'', ''B'', ''#C-B'']})]"
proof -
  let ?self = "fst (weisfeiler_lehman toy_digest (fresh_walker 1) chain_kg)"
  have reads: "first_missing_read ?self (chain_walks chain_kg vertex_A) = None"
    by code_simp
  then have hyp: "\<forall>w\<in>set (chain_walks chain_kg vertex_A). \<forall>i\<in>{..<length w}. \<forall>n\<in>{0..wl_iterations ?self}.
      i = 0 \<or> i mod 2 = 1 \<or> stored_label ?self (name (w ! i)) n \<noteq> None"
    by (simp only: first_missing_read_None)
  have val: "snd (extract_instance chain_walks ?self chain_kg vertex_A) =
      Inr [(''A'', {[''A'', ''B'', ''C''], [''A'', ''B'', ''#C-B'']})]"
    by code_simp
  from canonical_walks_of_instance [of chain_walks chain_kg vertex_A ?self, OF hyp] reads val show ?thesis
    by blast
qed

text \<open>
  Claim C8. A read of the label of a name at a level that the Label Table does not
  hold raises \<^verbatim>\<open>KeyError\<close>, which is a \<^verbatim>\<open>LookupError\<close>, and returns no value; and
  \<^verbatim>\<open>_extract\<close> raises it to its caller whenever a raw walk has that name at an even
  position other than 0 and the level is one of 0 to the level count.
\<close>

theorem missing_label_raises_KeyError:
  assumes "stored_label self nm n = None"
  shows "snd (getitem2 (label_map self) nm n) = Inl KeyError \<and>
    (\<forall>extract_walks kg inst.
       0 \<le> n \<and> n \<le> wl_iterations self \<and>
       (\<exists>w\<in>set (extract_walks kg inst). \<exists>i<length w. \<not> (i = 0 \<or> i mod 2 = 1) \<and> name (w ! i) = nm) \<longrightarrow>
       snd (extract_instance extract_walks self kg inst) = Inl KeyError)"
proof -
  have read: "snd (getitem2 (label_map self) nm n) = Inl KeyError"
    using assms by (simp add: stored_label_def getitem2_absent)
  have "snd (extract_instance extract_walks self kg inst) = Inl KeyError"
    if n: "0 \<le> n \<and> n \<le> wl_iterations self"
      and w: "\<exists>w\<in>set (extract_walks kg inst). \<exists>i<length w. \<not> (i = 0 \<or> i mod 2 = 1) \<and> name (w ! i) = nm"
    for extract_walks :: "KG \<Rightarrow> vertex \<Rightarrow> vertex list list" and kg inst
  proof (cases "first_missing_read self (extract_walks kg inst)")
    case None
    from w obtain w i where "w \<in> set (extract_walks kg inst)" "i \<in> {..<length w}"
      "\<not> (i = 0 \<or> i mod 2 = 1)" "name (w ! i) = nm" by auto
    moreover from n have "n \<in> {0..wl_iterations self}" by simp
    ultimately have "stored_label self nm n \<noteq> None"
      using None unfolding first_missing_read_None by blast
    with assms show ?thesis by simp
  next
    case (Some r)
    then show ?thesis
      by (cases r) (simp add: extract_instance_eq)
  qed
  with read show ?thesis by blast
qed

theorem missing_label_raises_KeyError_witness:
  "stored_label (fresh_walker 1) ''C'' 0 = None \<and>
   snd (getitem2 (label_map (fresh_walker 1)) ''C'' 0) = Inl KeyError \<and>
   snd (extract_instance chain_walks (fresh_walker 1) chain_kg vertex_A) = Inl KeyError"
proof -
  have hyp: "stored_label (fresh_walker 1) ''C'' 0 = None" by code_simp
  have n: "(0::int) \<le> 0 \<and> 0 \<le> wl_iterations (fresh_walker 1)" by code_simp
  have "[vertex_A, vertex_B, vertex_C] \<in> set (chain_walks chain_kg vertex_A)"
    and "(2::nat) < length [vertex_A, vertex_B, vertex_C]"
    and "\<not> ((2::nat) = 0 \<or> (2::nat) mod 2 = 1)"
    and "name ([vertex_A, vertex_B, vertex_C] ! 2) = ''C''"
    by code_simp+
  then have w: "\<exists>w\<in>set (chain_walks chain_kg vertex_A). \<exists>i<length w. \<not> (i = 0 \<or> i mod 2 = 1) \<and> name (w ! i) = ''C''"
    by blast
  from missing_label_raises_KeyError [OF hyp] n w hyp show ?thesis
    by blast
qed

lemma canonical_walk_returns:
  "canonical_walk lm n i acc w = (lm', Inr c) \<Longrightarrow>
     lm' = lm \<and> c = acc @ canonical_spec lm n i w"
  by (auto simp: canonical_walk_eq split: option.splits)

lemma reads_of_walk_present:
  assumes "first_missing_read self walks = None" and "w \<in> set walks" and "n \<in> {0..wl_iterations self}"
  shows "find (\<lambda>nm. table_get (label_map self) nm n = None) (label_reads 0 w) = None"
proof -
  have "table_get (label_map self) nm n \<noteq> None" if "nm \<in> set (label_reads 0 w)" for nm
  proof -
    from that assms(2) have "nm \<in> set (concat (map (label_reads 0) walks))"
      by auto
    with assms(3) have "(nm, n) \<in> set (all_reads walks [0..wl_iterations self])"
      unfolding all_reads_def by force
    with assms(1) have "\<not> (case (nm, n) of (nm, n) \<Rightarrow> table_get (label_map self) nm n = None)"
      unfolding first_missing_read_def by (rule find_NoneD)
    then show ?thesis by simp
  qed
  then show ?thesis
    by (auto simp: find_None_iff)
qed

text \<open>
  Claim C9. A canonical walk is as long as the raw walk it is made from: whatever the
  Label Table, the level and the raw walk, when the loop over the hops of the raw walk
  ends without an exception, the canonical walk it has built has the length of that raw
  walk. Every canonical walk that \<^verbatim>\<open>_extract\<close> returns is built in this way from a raw
  walk of the sampler at a level from 0 to the level count, with the Label Table of the
  walker, and has the length of that raw walk. The raw walk that has the root only
  becomes, at every level and whatever the Label Table holds, the walk that has the name
  of the root only, so that \<^verbatim>\<open>_extract\<close> returns that one walk when the sampler returns
  the root alone and the level count is not negative.
\<close>

theorem canonical_walk_keeps_length:
  "(\<forall>lm n w lm' c. canonical_walk lm n 0 [] w = (lm', Inr c) \<longrightarrow> length c = length w) \<and>
   (\<forall>s res. extract_instance extract_walks self kg inst = (s, Inr res) \<longrightarrow>
      (\<exists>cws. res = [(name inst, cws)] \<and>
         (\<forall>c\<in>cws. \<exists>w\<in>set (extract_walks kg inst). \<exists>n\<in>{0..wl_iterations self}.
            canonical_walk (label_map self) n 0 [] w = (label_map self, Inr c) \<and>
            length c = length w))) \<and>
   (\<forall>lm n r. canonical_walk lm n 0 [] [r] = (lm, Inr [name r])) \<and>
   (\<forall>r. extract_walks kg inst = [[r]] \<and> 0 \<le> wl_iterations self \<longrightarrow>
      extract_instance extract_walks self kg inst = (self, Inr [(name inst, {[name r]})]))"
proof -
  have each: "length c = length w" if "canonical_walk lm n 0 [] w = (lm', Inr c)" for lm n w lm' c
    using canonical_walk_returns [OF that] by (simp add: length_canonical_spec)
  have len: "\<exists>cws. res = [(name inst, cws)] \<and>
      (\<forall>c\<in>cws. \<exists>w\<in>set (extract_walks kg inst). \<exists>n\<in>{0..wl_iterations self}.
         canonical_walk (label_map self) n 0 [] w = (label_map self, Inr c) \<and> length c = length w)"
    if "extract_instance extract_walks self kg inst = (s, Inr res)" for s res
  proof (cases "first_missing_read self (extract_walks kg inst)")
    case None
    let ?cws = "\<Union>n\<in>{0..wl_iterations self}. canonical_spec (label_map self) n 0 ` set (extract_walks kg inst)"
    from None that have res: "res = [(name inst, ?cws)]"
      by (auto simp: extract_instance_eq)
    have "\<exists>w\<in>set (extract_walks kg inst). \<exists>n\<in>{0..wl_iterations self}.
         canonical_walk (label_map self) n 0 [] w = (label_map self, Inr c) \<and> length c = length w"
      if "c \<in> ?cws" for c
    proof -
      from that obtain n w where n: "n \<in> {0..wl_iterations self}" and w: "w \<in> set (extract_walks kg inst)"
        and c: "c = canonical_spec (label_map self) n 0 w"
        by blast
      from None w n have "find (\<lambda>nm. table_get (label_map self) nm n = None) (label_reads 0 w) = None"
        by (rule reads_of_walk_present)
      then have "canonical_walk (label_map self) n 0 [] w = (label_map self, Inr c)"
        by (simp add: canonical_walk_eq c)
      moreover have "length c = length w"
        by (simp add: c length_canonical_spec)
      ultimately show ?thesis
        using n w by blast
    qed
    then have all: "\<forall>c\<in>?cws. \<exists>w\<in>set (extract_walks kg inst). \<exists>n\<in>{0..wl_iterations self}.
         canonical_walk (label_map self) n 0 [] w = (label_map self, Inr c) \<and> length c = length w"
      by (intro ballI)
    show ?thesis
      by (rule exI [of _ ?cws]) (rule conjI [OF res all])
  next
    case (Some r)
    with that show ?thesis
      by (cases r) (simp add: extract_instance_eq)
  qed
  have root: "canonical_walk lm n 0 [] [r] = (lm, Inr [name r])" for lm n r
    by simp
  have one: "extract_instance extract_walks self kg inst = (self, Inr [(name inst, {[name r]})])"
    if "extract_walks kg inst = [[r]] \<and> 0 \<le> wl_iterations self" for r
  proof -
    from that have walks: "extract_walks kg inst = [[r]]" and L: "0 \<le> wl_iterations self" by simp_all
    have "first_missing_read self [[r]] = None"
      unfolding first_missing_read_None by (simp add: lessThan_Suc)
    moreover from L have "{0..wl_iterations self} \<noteq> {}" by simp
    then have "(\<Union>n\<in>{0..wl_iterations self}. canonical_spec (label_map self) n 0 ` set [[r]]) = {[name r]}"
      by (auto simp: canonical_spec_Cons canonical_spec_Nil)
    ultimately show ?thesis
      by (simp add: extract_instance_eq walks)
  qed
  have c1: "\<forall>lm n w lm' c. canonical_walk lm n 0 [] w = (lm', Inr c) \<longrightarrow> length c = length w"
    using each by blast
  have c2: "\<forall>s res. extract_instance extract_walks self kg inst = (s, Inr res) \<longrightarrow>
      (\<exists>cws. res = [(name inst, cws)] \<and>
         (\<forall>c\<in>cws. \<exists>w\<in>set (extract_walks kg inst). \<exists>n\<in>{0..wl_iterations self}.
            canonical_walk (label_map self) n 0 [] w = (label_map self, Inr c) \<and>
            length c = length w))"
    by (intro allI impI) (rule len)
  have c3: "\<forall>lm n r. canonical_walk lm n 0 [] [r] = (lm, Inr [name r])"
    by simp
  have c4: "\<forall>r. extract_walks kg inst = [[r]] \<and> 0 \<le> wl_iterations self \<longrightarrow>
      extract_instance extract_walks self kg inst = (self, Inr [(name inst, {[name r]})])"
    by (intro allI impI) (rule one)
  from c1 c2 c3 c4 show ?thesis by (intro conjI)
qed

theorem canonical_walk_keeps_length_witness:
  "canonical_walk (label_map (fst (weisfeiler_lehman toy_digest (fresh_walker 1) chain_kg))) 1 0 []
       [vertex_A, vertex_B, vertex_C] =
     (label_map (fst (weisfeiler_lehman toy_digest (fresh_walker 1) chain_kg)), Inr [''A'', ''B'', ''#C-B'']) \<and>
   length [''A'', ''B'', ''#C-B''] = length [vertex_A, vertex_B, vertex_C] \<and>
   extract_instance chain_walks (fst (weisfeiler_lehman toy_digest (fresh_walker 1) chain_kg)) chain_kg vertex_A =
     (fst (weisfeiler_lehman toy_digest (fresh_walker 1) chain_kg),
      Inr [(''A'', {[''A'', ''B'', ''C''], [''A'', ''B'', ''#C-B'']})]) \<and>
   (\<exists>w\<in>set (chain_walks chain_kg vertex_A). \<exists>n\<in>{0..wl_iterations (fst (weisfeiler_lehman toy_digest (fresh_walker 1) chain_kg))}.
      canonical_walk (label_map (fst (weisfeiler_lehman toy_digest (fresh_walker 1) chain_kg))) n 0 [] w =
        (label_map (fst (weisfeiler_lehman toy_digest (fresh_walker 1) chain_kg)), Inr [''A'', ''B'', ''#C-B'']) \<and>
      length [''A'', ''B'', ''#C-B''] = length w) \<and>
   root_walks chain_kg vertex_A = [[vertex_A]] \<and> 0 \<le> wl_iterations (fresh_walker 4) \<and>
   extract_instance root_walks (fresh_walker 4) chain_kg vertex_A = (fresh_walker 4, Inr [(''A'', {[''A'']})])"
proof -
  let ?self = "fst (weisfeiler_lehman toy_digest (fresh_walker 1) chain_kg)"
  have made: "canonical_walk (label_map ?self) 1 0 [] [vertex_A, vertex_B, vertex_C] =
      (label_map ?self, Inr [''A'', ''B'', ''#C-B''])"
    by code_simp
  have res: "extract_instance chain_walks ?self chain_kg vertex_A =
      (?self, Inr [(''A'', {[''A'', ''B'', ''C''], [''A'', ''B'', ''#C-B'']})])"
    by code_simp
  have walks: "root_walks chain_kg vertex_A = [[vertex_A]]" by code_simp
  have L: "0 \<le> wl_iterations (fresh_walker 4)" by code_simp
  have nm: "name vertex_A = ''A''" by code_simp
  note inst = canonical_walk_keeps_length [of chain_walks ?self chain_kg vertex_A]
  from inst [THEN conjunct1, THEN spec, THEN spec, THEN spec, THEN spec, THEN spec, THEN mp, OF made]
  have len: "length [''A'', ''B'', ''#C-B''] = length [vertex_A, vertex_B, vertex_C]" .
  from inst [THEN conjunct2, THEN conjunct1, THEN spec, THEN spec, THEN mp, OF res] obtain cws where
    cws: "[(''A'', {[''A'', ''B'', ''C''], [''A'', ''B'', ''#C-B'']})] = [(name vertex_A, cws)]"
    and all: "\<forall>c\<in>cws. \<exists>w\<in>set (chain_walks chain_kg vertex_A). \<exists>n\<in>{0..wl_iterations ?self}.
            canonical_walk (label_map ?self) n 0 [] w = (label_map ?self, Inr c) \<and> length c = length w"
    by (elim exE conjE)
  from cws [unfolded nm] have "cws = {[''A'', ''B'', ''C''], [''A'', ''B'', ''#C-B'']}" by simp
  then have "[''A'', ''B'', ''#C-B''] \<in> cws" by simp
  with all have from_raw: "\<exists>w\<in>set (chain_walks chain_kg vertex_A). \<exists>n\<in>{0..wl_iterations ?self}.
      canonical_walk (label_map ?self) n 0 [] w = (label_map ?self, Inr [''A'', ''B'', ''#C-B'']) \<and>
      length [''A'', ''B'', ''#C-B''] = length w"
    by (rule bspec)
  note inst' = canonical_walk_keeps_length [of root_walks "fresh_walker 4" chain_kg vertex_A]
  from walks L have "root_walks chain_kg vertex_A = [[vertex_A]] \<and> 0 \<le> wl_iterations (fresh_walker 4)"
    by (rule conjI)
  from inst' [THEN conjunct2, THEN conjunct2, THEN conjunct2, THEN spec, THEN mp, OF this]
  have root: "extract_instance root_walks (fresh_walker 4) chain_kg vertex_A =
      (fresh_walker 4, Inr [(''A'', {[''A'']})])"
    unfolding nm .
  from made len res from_raw walks L root show ?thesis
    by (intro conjI)
qed

text \<open>
  Claim C10. When the first read of \<^verbatim>\<open>_extract\<close> that finds no label is the read of a
  name that has no entry in the Label Table, at a level \<open>n\<close>, the call raises
  \<^verbatim>\<open>KeyError\<close> and leaves the Label Table with one more entry, the empty dictionary
  under that name, after the entries it had: the table after the call is not the table
  before it. The name stands at an even position other than 0 of a raw walk.
\<close>

theorem failed_lookup_inserts_empty_entry:
  assumes "first_missing_read self (extract_walks kg inst) = Some (nm, n)"
    and "map_of (label_map self) nm = None"
  shows "extract_instance extract_walks self kg inst =
      (self\<lparr>label_map := label_map self @ [(nm, [])]\<rparr>, Inl KeyError) \<and>
    label_map (fst (extract_instance extract_walks self kg inst)) \<noteq> label_map self \<and>
    map_of (label_map (fst (extract_instance extract_walks self kg inst))) nm = Some [] \<and>
    (\<exists>w\<in>set (extract_walks kg inst). \<exists>i<length w. \<not> (i = 0 \<or> i mod 2 = 1) \<and> nm = name (w ! i))"
proof -
  from assms(2) have "table_get (label_map self) nm n = None"
    by (simp add: table_get_def)
  with assms(2) have "getitem2 (label_map self) nm n = (label_map self @ [(nm, [])], Inl KeyError)"
    by (simp add: getitem2_absent)
  with assms(1) have res: "extract_instance extract_walks self kg inst =
      (self\<lparr>label_map := label_map self @ [(nm, [])]\<rparr>, Inl KeyError)"
    by (simp add: extract_instance_eq)
  moreover have "map_of (label_map self @ [(nm, [])]) nm = Some []"
    using assms(2) by (simp add: map_add_def)
  moreover have "\<exists>w\<in>set (extract_walks kg inst). \<exists>i<length w. \<not> (i = 0 \<or> i mod 2 = 1) \<and> nm = name (w ! i)"
    using first_missing_read_Some [OF assms(1)] by blast
  ultimately show ?thesis by simp
qed

theorem failed_lookup_inserts_empty_entry_witness:
  "first_missing_read (fresh_walker 1) (chain_walks chain_kg vertex_A) = Some (''C'', 0) \<and>
   map_of (label_map (fresh_walker 1)) ''C'' = None \<and>
   label_map (fresh_walker 1) = [] \<and>
   extract_instance chain_walks (fresh_walker 1) chain_kg vertex_A =
     (\<lparr>wl_iterations = 1, inv_label_map = [], is_support_remote = False, label_map = [(''C'', [])]\<rparr>,
      Inl KeyError)"
proof -
  have first: "first_missing_read (fresh_walker 1) (chain_walks chain_kg vertex_A) = Some (''C'', 0)"
    by code_simp
  have absent: "map_of (label_map (fresh_walker 1)) ''C'' = None"
    by code_simp
  have before: "label_map (fresh_walker 1) = []"
    by code_simp
  have after: "(fresh_walker 1)\<lparr>label_map := label_map (fresh_walker 1) @ [(''C'', [])]\<rparr> =
      \<lparr>wl_iterations = 1, inv_label_map = [], is_support_remote = False, label_map = [(''C'', [])]\<rparr>"
    by code_simp
  from failed_lookup_inserts_empty_entry
    [of "fresh_walker 1" chain_walks chain_kg vertex_A "''C''" 0, OF first absent] first absent before
  show ?thesis
    unfolding after by blast
qed

subsection \<open>A pass over any graph\<close>

lemma neighbor_labels_eq:
  "neighbor_labels lm nbs m =
     (case find (\<lambda>nm. table_get lm nm m = None) (map name nbs) of
        None \<Rightarrow> (lm, Inr (map (\<lambda>u. the (table_get lm (name u) m)) nbs))
      | Some nm \<Rightarrow> (fst (getitem2 lm nm m), Inl KeyError))"
proof (induction nbs)
  case Nil
  then show ?case by simp
next
  case (Cons u nbs)
  show ?case
  proof (cases "table_get lm (name u) m")
    case None
    then show ?thesis by (simp add: getitem2_absent)
  next
    case (Some l)
    then show ?thesis
      by (simp add: getitem2_present Cons.IH split: option.split)
  qed
qed

lemma create_label_body_eq:
  "create_label_body s kg v n =
     (case find (\<lambda>nm. table_get (label_map s) nm (n - 1) = None) (reads_of kg v) of
        None \<Rightarrow> (s, Inr (prehash (\<lambda>nm. table_get (label_map s) nm (n - 1)) kg v))
      | Some nm \<Rightarrow> (s\<lparr>label_map := fst (getitem2 (label_map s) nm (n - 1))\<rparr>, Inl KeyError))"
proof (cases "find (\<lambda>nm. table_get (label_map s) nm (n - 1) = None) (map name (get_neighbors_reverse kg v))")
  case (Some nm)
  then show ?thesis
    by (simp add: create_label_body_def neighbor_labels_eq reads_of_def find_app)
next
  case None
  show ?thesis
  proof (cases "table_get (label_map s) (name v) (n - 1)")
    case own: None
    with None show ?thesis
      by (simp add: create_label_body_def neighbor_labels_eq reads_of_def find_app
          getitem2_absent)
  next
    case own: (Some l)
    with None show ?thesis
      by (simp add: create_label_body_def neighbor_labels_eq reads_of_def find_app
          getitem2_present prehash_def)
  qed
qed

lemma relabel_vertices_general:
  assumes "\<forall>nm. table_get (label_map s) nm (n - 1) = q nm"
  shows "relabel_vertices create_label_body digest kg n s vs =
    (s\<lparr>label_map := fst (level_loop digest q kg n (label_map s) vs)\<rparr>,
     snd (level_loop digest q kg n (label_map s) vs))"
  using assms
proof (induction vs arbitrary: s)
  case Nil
  then show ?case by simp
next
  case (Cons v vs)
  from Cons.prems have q: "(\<lambda>nm. table_get (label_map s) nm (n - 1)) = q"
    by (intro ext) simp
  have cl: "create_label_body s kg v n =
      (case find (\<lambda>nm. q nm = None) (reads_of kg v) of
         None \<Rightarrow> (s, Inr (prehash q kg v))
       | Some nm \<Rightarrow> (s\<lparr>label_map := fst (getitem2 (label_map s) nm (n - 1))\<rparr>, Inl KeyError))"
    by (simp only: create_label_body_eq q [symmetric])
  show ?case
  proof (cases "find (\<lambda>nm. q nm = None) (reads_of kg v)")
    case (Some nm)
    then show ?thesis
      by (simp add: cl)
  next
    case None
    let ?s1 = "s\<lparr>label_map := setitem2 (label_map s) (name v) n (digest (prehash q kg v))\<rparr>"
    have "\<forall>nm. table_get (label_map ?s1) nm (n - 1) = q nm"
      using Cons.prems by (simp add: table_get_setitem2)
    from Cons.IH [OF this] None show ?thesis
      by (simp add: cl)
  qed
qed

lemma relabel_vertices_table:
  "relabel_vertices create_label_body digest kg n s vs =
     (s\<lparr>label_map := fst (level_table digest kg n vs (label_map s))\<rparr>,
      snd (level_table digest kg n vs (label_map s)))"
  unfolding level_table_def by (rule relabel_vertices_general) simp

lemma relabel_levels_table:
  "relabel_levels create_label_body digest kg s ns =
     (s\<lparr>label_map := fst (levels_table digest kg (label_map s) ns)\<rparr>,
      snd (levels_table digest kg (label_map s) ns))"
proof (induction ns arbitrary: s)
  case Nil
  then show ?case by simp
next
  case (Cons n ns)
  obtain lm1 r where lt: "level_table digest kg n (vertices kg) (label_map s) = (lm1, r)"
    by (cases "level_table digest kg n (vertices kg) (label_map s)")
  show ?case
  proof (cases r)
    case (Inl e)
    with lt show ?thesis by (simp add: relabel_vertices_table)
  next
    case (Inr u)
    with lt Cons.IH [of "s\<lparr>label_map := lm1\<rparr>"] show ?thesis
      by (simp add: relabel_vertices_table)
  qed
qed

lemma table_get_getitem2: "table_get (fst (getitem2 d k j)) k' j' = table_get d k' j'"
  by (auto simp: getitem2_def defaultdict_getitem_def table_get_def map_add_def split: option.splits)

lemma keys_getitem2: "fst ` set (fst (getitem2 d k j)) = insert k (fst ` set d)"
proof (cases "map_of d k")
  case None
  then show ?thesis
    by (auto simp: getitem2_def defaultdict_getitem_def)
next
  case (Some inner)
  then have "k \<in> fst ` set d"
    by (metis map_of_eq_None_iff option.distinct(1))
  with Some show ?thesis
    by (auto simp: getitem2_def defaultdict_getitem_def)
qed

lemma getitem2_key_present:
  "table_get d k j = None \<Longrightarrow> k \<in> fst ` set d \<Longrightarrow> getitem2 d k j = (d, Inl KeyError)"
  by (simp add: getitem2_absent map_of_eq_None_iff)

lemma level_loop_ok:
  "\<forall>v\<in>set vs. level_ok q kg v \<Longrightarrow>
     level_loop digest q kg n lm vs = (put_level (\<lambda>v. digest (prehash q kg v)) n vs lm, Inr ())"
  by (induction vs arbitrary: lm) (simp_all add: put_level_Nil put_level_Cons level_ok_def)

lemma level_loop_prefix:
  "\<forall>v\<in>set xs. level_ok q kg v \<Longrightarrow>
     level_loop digest q kg n lm (xs @ rest) =
     level_loop digest q kg n (put_level (\<lambda>v. digest (prehash q kg v)) n xs lm) rest"
  by (induction xs arbitrary: lm) (simp_all add: put_level_Nil put_level_Cons level_ok_def)

lemma level_loop_fail:
  assumes "\<forall>v\<in>set xs. level_ok q kg v" and "find (\<lambda>nm. q nm = None) (reads_of kg v) = Some x"
  shows "level_loop digest q kg n lm (xs @ v # ys) =
    (fst (getitem2 (put_level (\<lambda>v. digest (prehash q kg v)) n xs lm) x (n - 1)), Inl KeyError)"
  using assms by (simp add: level_loop_prefix)

lemma level_loop_cases:
  obtains (ok) "\<forall>v\<in>set vs. level_ok q kg v"
  | (fail) xs v ys x where "vs = xs @ v # ys" and "\<forall>u\<in>set xs. level_ok q kg u"
      and "find (\<lambda>nm. q nm = None) (reads_of kg v) = Some x"
proof (cases "\<forall>v\<in>set vs. level_ok q kg v")
  case True
  then show ?thesis by (rule ok)
next
  case False
  then have "\<exists>v\<in>set vs. \<not> level_ok q kg v" by blast
  from split_list_first_prop [OF this]
  obtain xs v ys where vs: "vs = xs @ v # ys" and v: "\<not> level_ok q kg v"
    and xs: "\<forall>u\<in>set xs. \<not> \<not> level_ok q kg u"
    by blast
  from v obtain x where "find (\<lambda>nm. q nm = None) (reads_of kg v) = Some x"
    by (auto simp: level_ok_def)
  with vs xs show ?thesis by (intro fail) simp_all
qed


lemma table_get_level_loop_other:
  "j \<noteq> n \<Longrightarrow> table_get (fst (level_loop digest q kg n lm vs)) nm j = table_get lm nm j"
proof (cases rule: level_loop_cases [of vs q kg])
  case ok
  then show "j \<noteq> n \<Longrightarrow> ?thesis"
    by (simp add: level_loop_ok table_get_put_level_other)
next
  case (fail xs v ys x)
  then show "j \<noteq> n \<Longrightarrow> ?thesis"
    by (simp add: level_loop_fail table_get_getitem2 table_get_put_level_other)
qed

lemma keys_level_loop: "fst ` set lm \<subseteq> fst ` set (fst (level_loop digest q kg n lm vs))"
proof (cases rule: level_loop_cases [of vs q kg])
  case ok
  then show ?thesis
    by (simp add: level_loop_ok keys_put_level)
next
  case (fail xs v ys x)
  then show ?thesis
    by (auto simp: level_loop_fail keys_getitem2 keys_put_level)
qed

lemma table_get_levels_table_other:
  "j \<notin> set ns \<Longrightarrow> table_get (fst (levels_table digest kg lm ns)) nm j = table_get lm nm j"
proof (induction ns arbitrary: lm)
  case Nil
  then show ?case by simp
next
  case (Cons n ns)
  obtain lm1 r where lt: "level_table digest kg n (vertices kg) lm = (lm1, r)"
    by (cases "level_table digest kg n (vertices kg) lm")
  from Cons.prems have "j \<noteq> n" by simp
  then have keep: "table_get lm1 nm j = table_get lm nm j"
    using table_get_level_loop_other [of j n digest "\<lambda>nm. table_get lm nm (n - 1)" kg lm "vertices kg" nm] lt
    by (simp add: level_table_def)
  show ?case
  proof (cases r)
    case (Inl e)
    with lt keep show ?thesis by simp
  next
    case (Inr u)
    from Cons.prems have "j \<notin> set ns" by simp
    from Cons.IH [OF this, of lm1] lt Inr keep show ?thesis by simp
  qed
qed

lemma keys_levels_table: "fst ` set lm \<subseteq> fst ` set (fst (levels_table digest kg lm ns))"
proof (induction ns arbitrary: lm)
  case Nil
  then show ?case by simp
next
  case (Cons n ns)
  obtain lm1 r where lt: "level_table digest kg n (vertices kg) lm = (lm1, r)"
    by (cases "level_table digest kg n (vertices kg) lm")
  have keys: "fst ` set lm \<subseteq> fst ` set lm1"
    using keys_level_loop [of lm digest "\<lambda>nm. table_get lm nm (n - 1)" kg n "vertices kg"] lt
    by (simp add: level_table_def)
  show ?case
  proof (cases r)
    case (Inl e)
    with lt keys show ?thesis by simp
  next
    case (Inr u)
    with lt keys Cons.IH [of lm1] show ?thesis by auto
  qed
qed

lemma weisfeiler_lehman_general:
  "weisfeiler_lehman digest self kg =
     (let lt = levels_table digest kg (put_level name 0 (vertices kg) (label_map self)) [1..wl_iterations self];
          im0 = put_level (\<lambda>v. AStr (name v)) (AInt 0) (vertices kg) (inv_label_map self)
      in (self\<lparr>label_map := fst lt,
               inv_label_map := (case snd lt of Inl e \<Rightarrow> im0 | Inr u \<Rightarrow> invert_all (fst lt) (vertices kg) im0)\<rparr>,
          snd lt))"
proof -
  let ?lm0 = "put_level name 0 (vertices kg) (label_map self)"
  let ?im0 = "put_level (\<lambda>v. AStr (name v)) (AInt 0) (vertices kg) (inv_label_map self)"
  let ?lt = "levels_table digest kg ?lm0 [1..wl_iterations self]"
  let ?s0 = "init_labels self (vertices kg)"
  have s0: "?s0 = self\<lparr>label_map := ?lm0, inv_label_map := ?im0\<rparr>"
    by (rule init_labels_eq)
  have lv: "relabel_levels create_label_body digest kg ?s0 [1..wl_iterations ?s0] =
      (self\<lparr>label_map := fst ?lt, inv_label_map := ?im0\<rparr>, snd ?lt)"
    by (simp add: relabel_levels_table s0)
  show ?thesis
  proof (cases "snd ?lt")
    case (Inl e)
    with lv show ?thesis
      by (simp add: weisfeiler_lehman_def weisfeiler_lehman_with_def Let_def)
  next
    case (Inr u)
    let ?s1 = "self\<lparr>label_map := fst ?lt, inv_label_map := ?im0\<rparr>"
    have "name ` set (vertices kg) \<subseteq> fst ` set ?lm0"
      by (simp add: keys_put_level)
    also have "\<dots> \<subseteq> fst ` set (fst ?lt)"
      by (rule keys_levels_table)
    finally have "\<forall>v\<in>set (vertices kg). map_of (label_map ?s1) (name v) \<noteq> None"
      by (auto simp: map_of_eq_None_iff)
    then have "invert_labels ?s1 (vertices kg) =
        ?s1\<lparr>inv_label_map := invert_all (label_map ?s1) (vertices kg) (inv_label_map ?s1)\<rparr>"
      by (rule invert_labels_eq)
    with lv Inr show ?thesis
      by (simp add: weisfeiler_lehman_def weisfeiler_lehman_with_def Let_def)
  qed
qed

lemma label_map_after:
  "label_map (fst (weisfeiler_lehman digest self kg)) =
     fst (levels_table digest kg (put_level name 0 (vertices kg) (label_map self)) [1..wl_iterations self])"
  and outcome_after:
  "snd (weisfeiler_lehman digest self kg) =
     snd (levels_table digest kg (put_level name 0 (vertices kg) (label_map self)) [1..wl_iterations self])"
  and wl_iterations_after:
  "wl_iterations (fst (weisfeiler_lehman digest self kg)) = wl_iterations self"
  by (simp_all add: weisfeiler_lehman_general Let_def)

subsection \<open>The last vertex of a name\<close>

lemma winner_Cons: "nm \<in> name ` set vs \<Longrightarrow> winner (v # vs) nm = winner vs nm"
proof -
  assume "nm \<in> name ` set vs"
  then have "filter (\<lambda>v. name v = nm) vs \<noteq> []"
    by (auto simp: filter_empty_conv)
  then show ?thesis by (simp add: winner_def)
qed

lemma winner_Cons_self: "name v \<notin> name ` set vs \<Longrightarrow> winner (v # vs) (name v) = v"
proof -
  assume "name v \<notin> name ` set vs"
  then have "\<forall>u\<in>set vs. name u \<noteq> name v"
    by (metis imageI)
  then have "filter (\<lambda>u. name u = name v) vs = []"
    by (simp add: filter_empty_conv)
  then show ?thesis by (simp add: winner_def)
qed

lemma winner_in:
  assumes "nm \<in> name ` set vs"
  shows "winner vs nm \<in> set vs \<and> name (winner vs nm) = nm"
proof -
  from assms have ne: "filter (\<lambda>v. name v = nm) vs \<noteq> []"
    by (auto simp: filter_empty_conv)
  then have "last (filter (\<lambda>v. name v = nm) vs) \<in> set (filter (\<lambda>v. name v = nm) vs)"
    by (rule last_in_set)
  then show ?thesis by (simp add: winner_def)
qed


lemma table_get_put_level_winner:
  "table_get (put_level f n vs lm) nm j =
     (if j = n \<and> nm \<in> name ` set vs then Some (f (winner vs nm)) else table_get lm nm j)"
proof (induction vs arbitrary: lm)
  case Nil
  then show ?case by (simp add: put_level_Nil)
next
  case (Cons v vs)
  have step: "table_get (put_level f n (v # vs) lm) nm j =
      (if j = n \<and> nm \<in> name ` set vs then Some (f (winner vs nm))
       else table_get (setitem2 lm (name v) n (f v)) nm j)"
    unfolding put_level_Cons Cons.IH ..
  show ?case
  proof (cases "nm \<in> name ` set vs")
    case True
    then show ?thesis
      unfolding step by (simp add: winner_Cons table_get_setitem2)
  next
    case False
    show ?thesis
    proof (cases "name v = nm")
      case True
      with False have "name v \<notin> name ` set vs" by simp
      then have "winner (v # vs) (name v) = v" by (rule winner_Cons_self)
      with True False show ?thesis
        unfolding step by (auto simp: table_get_setitem2)
    next
      case other: False
      with False show ?thesis
        unfolding step by (auto simp: table_get_setitem2)
    qed
  qed
qed

subsection \<open>Storing again what is stored\<close>

lemma update_commute_present:
  "k \<noteq> k' \<Longrightarrow> k \<in> fst ` set al \<Longrightarrow> k' \<in> fst ` set al \<Longrightarrow>
     AList.update k v (AList.update k' v' al) = AList.update k' v' (AList.update k v al)"
  by (induction al) auto

lemma setitem2_absorb: "setitem2 (setitem2 d k j x) k j y = setitem2 d k j y"
proof (cases "map_of d k")
  case None
  then show ?thesis
    by (simp add: setitem2_def defaultdict_getitem_def update_conv' map_add_def)
next
  case (Some inner)
  then show ?thesis
    by (simp add: setitem2_def defaultdict_getitem_def update_conv')
qed

lemma setitem2_commute:
  assumes "k \<noteq> k'" and "k \<in> fst ` set d" and "k' \<in> fst ` set d"
  shows "setitem2 (setitem2 d k j x) k' j' y = setitem2 (setitem2 d k' j' y) k j x"
proof -
  from assms(2) obtain inner where inner: "map_of d k = Some inner"
    by (cases "map_of d k") (simp_all add: map_of_eq_None_iff)
  from assms(3) obtain inner' where inner': "map_of d k' = Some inner'"
    by (cases "map_of d k'") (simp_all add: map_of_eq_None_iff)
  from assms inner inner' show ?thesis
    by (simp add: setitem2_def defaultdict_getitem_def update_conv' update_commute_present)
qed

lemma put_level_overwritten:
  "name v \<in> name ` set vs \<Longrightarrow> name v \<in> fst ` set T \<Longrightarrow> name ` set vs \<subseteq> fst ` set T \<Longrightarrow>
     put_level f n vs (setitem2 T (name v) n x) = put_level f n vs T"
proof (induction vs arbitrary: T)
  case Nil
  then show ?case by simp
next
  case (Cons w ws)
  show ?case
  proof (cases "name w = name v")
    case True
    then show ?thesis
      by (simp add: put_level_Cons setitem2_absorb)
  next
    case False
    let ?T' = "setitem2 T (name w) n (f w)"
    from False Cons.prems have "name v \<in> name ` set ws" by auto
    moreover have "name v \<in> fst ` set ?T'" "name ` set ws \<subseteq> fst ` set ?T'"
      using Cons.prems by (auto simp: keys_setitem2)
    ultimately have "put_level f n ws (setitem2 ?T' (name v) n x) = put_level f n ws ?T'"
      by (rule Cons.IH)
    moreover have "setitem2 (setitem2 T (name v) n x) (name w) n (f w) = setitem2 ?T' (name v) n x"
      using False Cons.prems by (intro setitem2_commute) auto
    ultimately show ?thesis
      by (simp add: put_level_Cons)
  qed
qed

lemma put_level_settled:
  "name ` set vs \<subseteq> fst ` set T \<Longrightarrow>
   \<forall>nm\<in>name ` set vs. table_get T nm n = Some (f (winner vs nm)) \<Longrightarrow>
     put_level f n vs T = T"
proof (induction vs)
  case Nil
  then show ?case by (simp add: put_level_Nil)
next
  case (Cons v vs)
  have keys: "name ` set vs \<subseteq> fst ` set T" "name v \<in> fst ` set T"
    using Cons.prems(1) by auto
  have "\<forall>nm\<in>name ` set vs. table_get T nm n = Some (f (winner vs nm))"
  proof
    fix nm assume nm: "nm \<in> name ` set vs"
    then have "nm \<in> name ` set (v # vs)" by auto
    with Cons.prems(2) have "table_get T nm n = Some (f (winner (v # vs) nm))" by blast
    with nm show "table_get T nm n = Some (f (winner vs nm))"
      by (simp add: winner_Cons)
  qed
  with keys(1) have rest: "put_level f n vs T = T"
    by (rule Cons.IH)
  show ?case
  proof (cases "name v \<in> name ` set vs")
    case True
    then have "put_level f n vs (setitem2 T (name v) n (f v)) = put_level f n vs T"
      using keys by (intro put_level_overwritten)
    with rest show ?thesis by (simp add: put_level_Cons)
  next
    case False
    have "name v \<in> name ` set (v # vs)" by simp
    with Cons.prems(2) have "table_get T (name v) n = Some (f (winner (v # vs) (name v)))"
      by blast
    with False have "table_get T (name v) n = Some (f v)"
      by (simp add: winner_Cons_self)
    then have "setitem2 T (name v) n (f v) = T"
      by (rule setitem2_triv)
    with rest show ?thesis by (simp add: put_level_Cons)
  qed
qed

lemma level_table_rerun:
  assumes run: "level_table digest kg n vs lm = (lm1, r)"
    and names: "name ` set vs \<subseteq> fst ` set T"
    and keys: "fst ` set lm1 \<subseteq> fst ` set T"
    and prev: "\<forall>nm. table_get T nm (n - 1) = table_get lm nm (n - 1)"
    and cur: "\<forall>nm. table_get T nm n = table_get lm1 nm n"
  shows "level_table digest kg n vs T = (T, r)"
proof -
  define q where "q = (\<lambda>nm. table_get lm nm (n - 1))"
  define F where "F = (\<lambda>v. digest (prehash q kg v))"
  from prev have qT: "(\<lambda>nm. table_get T nm (n - 1)) = q"
    by (simp add: q_def)
  from run have run': "level_loop digest q kg n lm vs = (lm1, r)"
    by (simp add: level_table_def q_def)
  have goal: "level_table digest kg n vs T = level_loop digest q kg n T vs"
    by (simp add: level_table_def qT)
  show ?thesis
  proof (cases rule: level_loop_cases [of vs q kg])
    case ok
    with run' have lm1: "lm1 = put_level F n vs lm" and r: "r = Inr ()"
      by (simp_all add: level_loop_ok F_def)
    have "\<forall>nm\<in>name ` set vs. table_get T nm n = Some (F (winner vs nm))"
      using cur by (simp add: lm1 table_get_put_level_winner)
    with names have "put_level F n vs T = T"
      by (rule put_level_settled)
    with ok r show ?thesis
      by (simp add: goal level_loop_ok F_def)
  next
    case (fail xs v ys x)
    with run' have lm1: "lm1 = fst (getitem2 (put_level F n xs lm) x (n - 1))" and r: "r = Inl KeyError"
      by (simp_all add: level_loop_fail F_def)
    from fail(1) names have names_xs: "name ` set xs \<subseteq> fst ` set T" by auto
    have "\<forall>nm\<in>name ` set xs. table_get T nm n = Some (F (winner xs nm))"
      using cur by (simp add: lm1 table_get_getitem2 table_get_put_level_winner)
    with names_xs have settled: "put_level F n xs T = T"
      by (rule put_level_settled)
    from fail(3) have "q x = None"
      by (auto dest: find_SomeD)
    then have "table_get T x (n - 1) = None"
      using prev by (simp add: q_def)
    moreover have "x \<in> fst ` set T"
      using keys by (auto simp: lm1 keys_getitem2)
    ultimately have again: "getitem2 T x (n - 1) = (T, Inl KeyError)"
      by (rule getitem2_key_present)
    have "level_loop digest q kg n T (xs @ v # ys) =
        (fst (getitem2 (put_level F n xs T) x (n - 1)), Inl KeyError)"
      unfolding F_def using fail(2,3) by (rule level_loop_fail)
    moreover have "level_table digest kg n vs T = level_loop digest q kg n T (xs @ v # ys)"
      using goal fail(1) by simp
    ultimately show ?thesis
      by (simp add: settled again r)
  qed
qed

lemma levels_table_rerun:
  "sorted_wrt (<) ns \<Longrightarrow> name ` set (vertices kg) \<subseteq> fst ` set lm \<Longrightarrow>
   levels_table digest kg lm ns = (T, r) \<Longrightarrow> levels_table digest kg T ns = (T, r)"
proof (induction ns arbitrary: lm)
  case Nil
  then show ?case by simp
next
  case (Cons n ns)
  obtain lm1 r1 where lt: "level_table digest kg n (vertices kg) lm = (lm1, r1)"
    by (cases "level_table digest kg n (vertices kg) lm")
  have keys1: "fst ` set lm \<subseteq> fst ` set lm1"
    using keys_level_loop [of lm digest "\<lambda>nm. table_get lm nm (n - 1)" kg n "vertices kg"] lt
    by (simp add: level_table_def)
  have prev1: "table_get lm1 nm (n - 1) = table_get lm nm (n - 1)" for nm
    using table_get_level_loop_other [of "n - 1" n digest "\<lambda>nm. table_get lm nm (n - 1)" kg lm "vertices kg" nm] lt
    by (simp add: level_table_def)
  show ?case
  proof (cases r1)
    case (Inl e)
    with lt Cons.prems(3) have T: "T = lm1" and r: "r = Inl e" by simp_all
    have "level_table digest kg n (vertices kg) T = (T, r1)"
      using lt
    proof (rule level_table_rerun)
      show "name ` set (vertices kg) \<subseteq> fst ` set T"
        using Cons.prems(2) keys1 by (auto simp: T)
      show "fst ` set lm1 \<subseteq> fst ` set T" by (simp add: T)
      show "\<forall>nm. table_get T nm (n - 1) = table_get lm nm (n - 1)" by (simp add: T prev1)
      show "\<forall>nm. table_get T nm n = table_get lm1 nm n" by (simp add: T)
    qed
    with Inl r show ?thesis by simp
  next
    case (Inr u)
    with lt Cons.prems(3) have rest: "levels_table digest kg lm1 ns = (T, r)" by simp
    from Cons.prems(1) have sorted: "sorted_wrt (<) ns" and above: "\<forall>m\<in>set ns. n < m"
      by simp_all
    have names1: "name ` set (vertices kg) \<subseteq> fst ` set lm1"
      using Cons.prems(2) keys1 by auto
    from sorted names1 rest have again: "levels_table digest kg T ns = (T, r)"
      by (rule Cons.IH)
    have T: "T = fst (levels_table digest kg lm1 ns)"
      by (simp add: rest)
    from above have notin: "n \<notin> set ns" "n - 1 \<notin> set ns" by auto
    have "level_table digest kg n (vertices kg) T = (T, r1)"
      using lt
    proof (rule level_table_rerun)
      show keysT: "fst ` set lm1 \<subseteq> fst ` set T"
        unfolding T by (rule keys_levels_table)
      with names1 show "name ` set (vertices kg) \<subseteq> fst ` set T" by auto
      show "\<forall>nm. table_get T nm (n - 1) = table_get lm nm (n - 1)"
        unfolding T using notin(2) by (simp add: table_get_levels_table_other prev1)
      show "\<forall>nm. table_get T nm n = table_get lm1 nm n"
        unfolding T using notin(1) by (simp add: table_get_levels_table_other)
    qed
    with Inr again show ?thesis by simp
  qed
qed

text \<open>
  Claim C7. Relabeling is idempotent on an unchanged graph. For every graph, every
  walker and every digest, a second pass right after a first one has the outcome of
  the first, a normal return or the same exception, and leaves the Label Table as the
  first pass left it, entry for entry and in the same order.
\<close>

theorem relabel_twice_same_label_table:
  "label_map (fst (weisfeiler_lehman digest (fst (weisfeiler_lehman digest self kg)) kg)) =
     label_map (fst (weisfeiler_lehman digest self kg)) \<and>
   snd (weisfeiler_lehman digest (fst (weisfeiler_lehman digest self kg)) kg) =
     snd (weisfeiler_lehman digest self kg)"
proof -
  let ?lm0 = "put_level name 0 (vertices kg) (label_map self)"
  obtain T r where run: "levels_table digest kg ?lm0 [1..wl_iterations self] = (T, r)"
    by (cases "levels_table digest kg ?lm0 [1..wl_iterations self]")
  have names: "name ` set (vertices kg) \<subseteq> fst ` set ?lm0"
    by (simp add: keys_put_level)
  have T: "T = fst (levels_table digest kg ?lm0 [1..wl_iterations self])"
    by (simp add: run)
  have "table_get T (name v) 0 = Some (name v)" if "v \<in> set (vertices kg)" for v
  proof -
    have "table_get T (name v) 0 = table_get ?lm0 (name v) 0"
      unfolding T by (simp add: table_get_levels_table_other)
    also have "\<dots> = Some (name (winner (vertices kg) (name v)))"
      using that by (simp add: table_get_put_level_winner)
    also have "name (winner (vertices kg) (name v)) = name v"
      using that by (simp add: winner_in)
    finally show ?thesis .
  qed
  then have zero: "put_level name 0 (vertices kg) T = T"
    by (intro put_level_triv) simp
  have "levels_table digest kg T [1..wl_iterations self] = (T, r)"
    using sorted_wrt_upto names run by (rule levels_table_rerun)
  with run zero show ?thesis
    by (simp add: label_map_after outcome_after wl_iterations_after)
qed

theorem relabel_twice_same_label_table_witness:
  "label_map (fst (weisfeiler_lehman toy_digest
       (fst (weisfeiler_lehman toy_digest (fresh_walker 1) dangling_kg)) dangling_kg)) =
     [(''A'', [(0, ''A''), (1, ''#A-'')]), (''B'', [(0, ''B'')]), (''C'', [])] \<and>
   snd (weisfeiler_lehman toy_digest
       (fst (weisfeiler_lehman toy_digest (fresh_walker 1) dangling_kg)) dangling_kg) = Inl KeyError \<and>
   label_map (fst (weisfeiler_lehman toy_digest
       (fst (weisfeiler_lehman toy_digest (fresh_walker 1) shared_kg)) shared_kg)) =
     [(''A'', [(0, ''A''), (1, ''#A-'')]), (''B'', [(0, ''B''), (1, ''#B-'')]),
      (''X'', [(0, ''X''), (1, ''#X-c-p'')]), (''p'', [(0, ''p''), (1, ''#p-B'')]),
      (''c'', [(0, ''c''), (1, ''#c-A'')])] \<and>
   snd (weisfeiler_lehman toy_digest
       (fst (weisfeiler_lehman toy_digest (fresh_walker 1) shared_kg)) shared_kg) = Inr ()"
proof -
  have first: "label_map (fst (weisfeiler_lehman toy_digest (fresh_walker 1) dangling_kg)) =
      [(''A'', [(0, ''A''), (1, ''#A-'')]), (''B'', [(0, ''B'')]), (''C'', [])]"
    "snd (weisfeiler_lehman toy_digest (fresh_walker 1) dangling_kg) = Inl KeyError"
    "label_map (fst (weisfeiler_lehman toy_digest (fresh_walker 1) shared_kg)) =
      [(''A'', [(0, ''A''), (1, ''#A-'')]), (''B'', [(0, ''B''), (1, ''#B-'')]),
       (''X'', [(0, ''X''), (1, ''#X-c-p'')]), (''p'', [(0, ''p''), (1, ''#p-B'')]),
       (''c'', [(0, ''c''), (1, ''#c-A'')])]"
    "snd (weisfeiler_lehman toy_digest (fresh_walker 1) shared_kg) = Inr ()"
    by code_simp+
  from relabel_twice_same_label_table [of toy_digest "fresh_walker 1" dangling_kg]
    relabel_twice_same_label_table [of toy_digest "fresh_walker 1" shared_kg] first
  show ?thesis by simp
qed

subsection \<open>The labels of a pass that returns\<close>


lemma levels_table_returns:
  assumes "kg_closed kg"
  shows "\<forall>nm\<in>name ` set (vertices kg). table_get lm nm (i - 1) \<noteq> None \<Longrightarrow>
    snd (levels_table digest kg lm [i..j]) = Inr ()"
proof (induction i j arbitrary: lm rule: upto.induct)
  case (1 i j)
  show ?case
  proof (cases "i \<le> j")
    case False
    then show ?thesis by simp
  next
    case True
    define q where "q = (\<lambda>nm. table_get lm nm (i - 1))"
    define F where "F = (\<lambda>v. digest (prehash q kg v))"
    have ok: "\<forall>v\<in>set (vertices kg). level_ok q kg v"
    proof
      fix v assume v: "v \<in> set (vertices kg)"
      with assms have "\<forall>nm\<in>set (reads_of kg v). nm \<in> name ` set (vertices kg)"
        by (auto simp: kg_closed_def reads_of_def)
      with "1.prems" have "\<forall>nm\<in>set (reads_of kg v). q nm \<noteq> None"
        unfolding q_def by blast
      then show "level_ok q kg v"
        by (simp add: level_ok_def find_None_iff)
    qed
    then have lt: "level_table digest kg i (vertices kg) lm = (put_level F i (vertices kg) lm, Inr ())"
      unfolding level_table_def q_def [symmetric] F_def by (rule level_loop_ok)
    have "\<forall>nm\<in>name ` set (vertices kg). table_get (put_level F i (vertices kg) lm) nm (i + 1 - 1) \<noteq> None"
      by (simp add: table_get_put_level_winner)
    with True have "snd (levels_table digest kg (put_level F i (vertices kg) lm) [i + 1..j]) = Inr ()"
      by (rule "1.IH")
    with lt True show ?thesis
      by (simp add: upto_rec1)
  qed
qed

lemma weisfeiler_lehman_returns:
  assumes "kg_closed kg"
  shows "snd (weisfeiler_lehman digest self kg) = Inr ()"
proof -
  have "\<forall>nm\<in>name ` set (vertices kg).
      table_get (put_level name 0 (vertices kg) (label_map self)) nm (1 - 1) \<noteq> None"
    by (simp add: table_get_put_level_winner)
  with assms have "snd (levels_table digest kg (put_level name 0 (vertices kg) (label_map self))
      [1..wl_iterations self]) = Inr ()"
    by (rule levels_table_returns)
  then show ?thesis
    by (simp add: outcome_after)
qed





subsection \<open>Two enumerations of a graph\<close>









subsection \<open>The Inverse Label Table after a pass over any graph\<close>

lemma inner_distinct_getitem2: "inner_distinct d \<Longrightarrow> inner_distinct (fst (getitem2 d k j))"
  by (auto simp: inner_distinct_def getitem2_def defaultdict_getitem_def map_add_def
      split: option.splits if_splits)

lemma inner_distinct_level_loop:
  "inner_distinct lm \<Longrightarrow> inner_distinct (fst (level_loop digest q kg n lm vs))"
proof (cases rule: level_loop_cases [of vs q kg])
  case ok
  then show "inner_distinct lm \<Longrightarrow> ?thesis"
    by (simp add: level_loop_ok inner_distinct_put_level)
next
  case (fail xs v ys x)
  then show "inner_distinct lm \<Longrightarrow> ?thesis"
    by (simp add: level_loop_fail inner_distinct_getitem2 inner_distinct_put_level)
qed

lemma inner_distinct_levels_table:
  "inner_distinct lm \<Longrightarrow> inner_distinct (fst (levels_table digest kg lm ns))"
proof (induction ns arbitrary: lm)
  case Nil
  then show ?case by simp
next
  case (Cons n ns)
  obtain lm1 r where lt: "level_table digest kg n (vertices kg) lm = (lm1, r)"
    by (cases "level_table digest kg n (vertices kg) lm")
  have lm1: "inner_distinct lm1"
    using inner_distinct_level_loop [OF Cons.prems, of digest "\<lambda>nm. table_get lm nm (n - 1)" kg n "vertices kg"] lt
    by (simp add: level_table_def)
  show ?case
  proof (cases r)
    case (Inl e)
    with lt lm1 show ?thesis by simp
  next
    case (Inr u)
    with lt Cons.IH [OF lm1] show ?thesis by simp
  qed
qed

text \<open>
  Claim C3, as the code has it. A walker whose tables are empty makes a pass over a
  graph. The pass returns without an exception when every predecessor that the graph
  reports bears the name of a vertex of the graph. Whether it returns or raises, the
  Inverse Label Table then has the names of the vertices as its keys and holds for every
  vertex: under the integer key 0 the name of the vertex, and no other integer key; and
  under every string key a level at which the Label Table holds that string for the
  vertex. When the pass has returned, every label that the Label Table holds for the
  vertex is such a string key; when it has raised, there is no string key.
\<close>

theorem inverse_table_after_first_pass:
  assumes "label_map self = []" and "inv_label_map self = []"
  shows "(kg_closed kg \<longrightarrow> snd (weisfeiler_lehman digest self kg) = Inr ()) \<and>
    fst ` set (inv_label_map (fst (weisfeiler_lehman digest self kg))) = name ` set (vertices kg) \<and>
    (\<forall>v\<in>set (vertices kg).
       (\<forall>i. table_get (inv_label_map (fst (weisfeiler_lehman digest self kg))) (name v) (AInt i) =
          (if i = 0 then Some (AStr (name v)) else None)) \<and>
       (\<forall>s y. table_get (inv_label_map (fst (weisfeiler_lehman digest self kg))) (name v) (AStr s) = Some y \<longrightarrow>
          (\<exists>n. y = AInt n \<and> stored_label (fst (weisfeiler_lehman digest self kg)) (name v) n = Some s)) \<and>
       (snd (weisfeiler_lehman digest self kg) = Inr () \<longrightarrow>
          (\<forall>n s. stored_label (fst (weisfeiler_lehman digest self kg)) (name v) n = Some s \<longrightarrow>
             (\<exists>m. table_get (inv_label_map (fst (weisfeiler_lehman digest self kg))) (name v) (AStr s) = Some (AInt m) \<and>
                  stored_label (fst (weisfeiler_lehman digest self kg)) (name v) m = Some s))) \<and>
       (snd (weisfeiler_lehman digest self kg) \<noteq> Inr () \<longrightarrow>
          (\<forall>s. table_get (inv_label_map (fst (weisfeiler_lehman digest self kg))) (name v) (AStr s) = None)))"
proof -
  let ?lm0 = "put_level name 0 (vertices kg) ([] :: (string, (int, string) dict) dict)"
  let ?im0 = "put_level (\<lambda>v. AStr (name v)) (AInt 0) (vertices kg) ([] :: (string, (any, any) dict) dict)"
  let ?after = "fst (weisfeiler_lehman digest self kg)"
  obtain T r where run: "levels_table digest kg ?lm0 [1..wl_iterations self] = (T, r)"
    by (cases "levels_table digest kg ?lm0 [1..wl_iterations self]")
  have T: "T = fst (levels_table digest kg ?lm0 [1..wl_iterations self])"
    by (simp add: run)
  have lm: "label_map ?after = T" and out: "snd (weisfeiler_lehman digest self kg) = r"
    using run by (simp_all add: label_map_after outcome_after assms(1))
  have im: "inv_label_map ?after = (case r of Inl e \<Rightarrow> ?im0 | Inr u \<Rightarrow> invert_all T (vertices kg) ?im0)"
    by (cases r) (simp_all add: weisfeiler_lehman_general Let_def assms run)
  have returns: "snd (weisfeiler_lehman digest self kg) = Inr ()" if "kg_closed kg"
    using that by (rule weisfeiler_lehman_returns)
  have im0: "table_get ?im0 (name v) k = (if k = AInt 0 then Some (AStr (name v)) else None)"
    if "v \<in> set (vertices kg)" for v k
  proof -
    have "table_get ?im0 (name v) k =
        (if k = AInt 0 \<and> name v \<in> name ` set (vertices kg)
         then Some (AStr (name (winner (vertices kg) (name v))))
         else table_get [] (name v) k)"
      by (rule table_get_put_level_winner)
    moreover have "table_get ([] :: (string, (any, any) dict) dict) (name v) k = None"
      by (simp add: table_get_def)
    moreover from that have "name v \<in> name ` set (vertices kg)" by simp
    moreover from this have "name (winner (vertices kg) (name v)) = name v"
      by (simp add: winner_in)
    ultimately show ?thesis by simp
  qed
  have keys0: "fst ` set ?im0 = name ` set (vertices kg)"
    by (simp add: keys_put_level)
  have keys: "fst ` set (inv_label_map ?after) = name ` set (vertices kg)"
  proof (cases r)
    case (Inl e)
    then show ?thesis by (simp add: im keys0)
  next
    case (Inr u)
    with keys_invert_all [of ?im0 T "vertices kg"] keys0 show ?thesis
      by (auto simp: im)
  qed
  have vertex: "(\<forall>i. table_get (inv_label_map ?after) (name v) (AInt i) =
          (if i = 0 then Some (AStr (name v)) else None)) \<and>
       (\<forall>s y. table_get (inv_label_map ?after) (name v) (AStr s) = Some y \<longrightarrow>
          (\<exists>n. y = AInt n \<and> stored_label ?after (name v) n = Some s)) \<and>
       (snd (weisfeiler_lehman digest self kg) = Inr () \<longrightarrow>
          (\<forall>n s. stored_label ?after (name v) n = Some s \<longrightarrow>
             (\<exists>m. table_get (inv_label_map ?after) (name v) (AStr s) = Some (AInt m) \<and>
                  stored_label ?after (name v) m = Some s))) \<and>
       (snd (weisfeiler_lehman digest self kg) \<noteq> Inr () \<longrightarrow>
          (\<forall>s. table_get (inv_label_map ?after) (name v) (AStr s) = None))"
    if v: "v \<in> set (vertices kg)" for v
  proof (cases r)
    case (Inl e)
    then have inv: "table_get (inv_label_map ?after) (name v) k =
        (if k = AInt 0 then Some (AStr (name v)) else None)" for k
      using v by (simp add: im im0)
    from Inl show ?thesis
      by (simp add: inv out)
  next
    case (Inr u)
    have "name v \<in> fst ` set ?lm0"
      using v by (simp add: keys_put_level)
    also have "\<dots> \<subseteq> fst ` set T"
      unfolding T by (rule keys_levels_table)
    finally obtain items where items: "map_of T (name v) = Some items"
      by (cases "map_of T (name v)") (simp_all add: map_of_eq_None_iff)
    have T_dist: "inner_distinct T"
      unfolding T by (intro inner_distinct_levels_table inner_distinct_put_level inner_distinct_Nil)
    have stored: "(stored_label ?after (name v) n = Some s) = ((n, s) \<in> set items)" for n s
      unfolding stored_label_def lm using T_dist items by (rule table_get_items)
    have inv: "table_get (inv_label_map ?after) (name v) k =
        (case map_of (rev (swapped items)) k of None \<Rightarrow> table_get ?im0 (name v) k | Some y \<Rightarrow> Some y)" for k
      unfolding im Inr sum.case table_get_invert_all using v items by simp
    have ints: "table_get (inv_label_map ?after) (name v) (AInt i) =
        (if i = 0 then Some (AStr (name v)) else None)" for i
      using v by (simp add: inv swapped_key_int im0)
    have sound: "\<exists>n. y = AInt n \<and> stored_label ?after (name v) n = Some s"
      if "table_get (inv_label_map ?after) (name v) (AStr s) = Some y" for s y
    proof -
      from that v have "map_of (rev (swapped items)) (AStr s) = Some y"
        by (simp add: inv im0 split: option.splits)
      from swapped_Some [OF this] show ?thesis by (simp add: stored)
    qed
    have complete: "\<exists>m. table_get (inv_label_map ?after) (name v) (AStr s) = Some (AInt m) \<and>
        stored_label ?after (name v) m = Some s"
      if "stored_label ?after (name v) n = Some s" for n s
    proof -
      from that have "(n, s) \<in> set items" by (simp add: stored)
      from swapped_member [OF this] obtain m where
        "map_of (rev (swapped items)) (AStr s) = Some (AInt m)" "(m, s) \<in> set items" by blast
      then show ?thesis by (auto simp: inv stored)
    qed
    have ok: "snd (weisfeiler_lehman digest self kg) = Inr ()"
      using Inr by (simp add: out)
    have c1: "\<forall>i. table_get (inv_label_map ?after) (name v) (AInt i) =
          (if i = 0 then Some (AStr (name v)) else None)"
      by (rule allI) (rule ints)
    have c2: "\<forall>s y. table_get (inv_label_map ?after) (name v) (AStr s) = Some y \<longrightarrow>
          (\<exists>n. y = AInt n \<and> stored_label ?after (name v) n = Some s)"
      using sound by blast
    have c3: "snd (weisfeiler_lehman digest self kg) = Inr () \<longrightarrow>
          (\<forall>n s. stored_label ?after (name v) n = Some s \<longrightarrow>
             (\<exists>m. table_get (inv_label_map ?after) (name v) (AStr s) = Some (AInt m) \<and>
                  stored_label ?after (name v) m = Some s))"
      using complete by blast
    have c4: "snd (weisfeiler_lehman digest self kg) \<noteq> Inr () \<longrightarrow>
          (\<forall>s. table_get (inv_label_map ?after) (name v) (AStr s) = None)"
      using ok by simp
    from c1 c2 c3 c4 show ?thesis by (intro conjI)
  qed
  have ret: "kg_closed kg \<longrightarrow> snd (weisfeiler_lehman digest self kg) = Inr ()"
    using returns by (rule impI)
  have all: "\<forall>v\<in>set (vertices kg).
       (\<forall>i. table_get (inv_label_map ?after) (name v) (AInt i) =
          (if i = 0 then Some (AStr (name v)) else None)) \<and>
       (\<forall>s y. table_get (inv_label_map ?after) (name v) (AStr s) = Some y \<longrightarrow>
          (\<exists>n. y = AInt n \<and> stored_label ?after (name v) n = Some s)) \<and>
       (snd (weisfeiler_lehman digest self kg) = Inr () \<longrightarrow>
          (\<forall>n s. stored_label ?after (name v) n = Some s \<longrightarrow>
             (\<exists>m. table_get (inv_label_map ?after) (name v) (AStr s) = Some (AInt m) \<and>
                  stored_label ?after (name v) m = Some s))) \<and>
       (snd (weisfeiler_lehman digest self kg) \<noteq> Inr () \<longrightarrow>
          (\<forall>s. table_get (inv_label_map ?after) (name v) (AStr s) = None))"
    by (rule ballI) (rule vertex)
  from ret keys all show ?thesis by (intro conjI)
qed

theorem inverse_table_after_first_pass_witness:
  "label_map (fresh_walker 1) = [] \<and> inv_label_map (fresh_walker 1) = [] \<and>
   kg_closed shared_kg \<and> vertex_X \<in> set (vertices shared_kg) \<and>
   snd (weisfeiler_lehman toy_digest (fresh_walker 1) shared_kg) = Inr () \<and>
   table_get (inv_label_map (fst (weisfeiler_lehman toy_digest (fresh_walker 1) shared_kg))) ''X'' (AInt 0) = Some (AStr ''X'') \<and>
   stored_label (fst (weisfeiler_lehman toy_digest (fresh_walker 1) shared_kg)) ''X'' 1 = Some ''#X-c-p'' \<and>
   (\<exists>m. table_get (inv_label_map (fst (weisfeiler_lehman toy_digest (fresh_walker 1) shared_kg))) ''X'' (AStr ''#X-c-p'') = Some (AInt m) \<and>
        stored_label (fst (weisfeiler_lehman toy_digest (fresh_walker 1) shared_kg)) ''X'' m = Some ''#X-c-p'') \<and>
   vertex_B \<in> set (vertices dangling_kg) \<and>
   snd (weisfeiler_lehman toy_digest (fresh_walker 1) dangling_kg) \<noteq> Inr () \<and>
   table_get (inv_label_map (fst (weisfeiler_lehman toy_digest (fresh_walker 1) dangling_kg))) ''B'' (AInt 0) = Some (AStr ''B'') \<and>
   table_get (inv_label_map (fst (weisfeiler_lehman toy_digest (fresh_walker 1) dangling_kg))) ''B'' (AStr ''B'') = None"
proof -
  let ?after = "fst (weisfeiler_lehman toy_digest (fresh_walker 1) shared_kg)"
  let ?failed = "fst (weisfeiler_lehman toy_digest (fresh_walker 1) dangling_kg)"
  have lm: "label_map (fresh_walker 1) = []" by code_simp
  have im: "inv_label_map (fresh_walker 1) = []" by code_simp
  have closed: "kg_closed shared_kg" by code_simp
  have v: "vertex_X \<in> set (vertices shared_kg)" by code_simp
  have nm: "name vertex_X = ''X''" by code_simp
  have lab: "stored_label ?after ''X'' 1 = Some ''#X-c-p''" by code_simp
  have b: "vertex_B \<in> set (vertices dangling_kg)" by code_simp
  have nmb: "name vertex_B = ''B''" by code_simp
  have raised: "snd (weisfeiler_lehman toy_digest (fresh_walker 1) dangling_kg) \<noteq> Inr ()" by code_simp
  note inst = inverse_table_after_first_pass [OF lm im, of shared_kg toy_digest]
  from inst [THEN conjunct1] closed have ok: "snd (weisfeiler_lehman toy_digest (fresh_walker 1) shared_kg) = Inr ()"
    by (rule mp)
  note at_X = inst [THEN conjunct2, THEN conjunct2, THEN bspec, OF v, unfolded nm]
  from at_X [THEN conjunct1, THEN spec, of 0]
  have zero: "table_get (inv_label_map ?after) ''X'' (AInt 0) = Some (AStr ''X'')"
    by simp
  from at_X [THEN conjunct2, THEN conjunct2, THEN conjunct1, THEN mp, OF ok, THEN spec, THEN spec, THEN mp, OF lab]
  have inverted: "\<exists>m. table_get (inv_label_map ?after) ''X'' (AStr ''#X-c-p'') = Some (AInt m) \<and>
        stored_label ?after ''X'' m = Some ''#X-c-p''" .
  note inst' = inverse_table_after_first_pass [OF lm im, of dangling_kg toy_digest]
  note at_B = inst' [THEN conjunct2, THEN conjunct2, THEN bspec, OF b, unfolded nmb]
  from at_B [THEN conjunct1, THEN spec, of 0]
  have zero': "table_get (inv_label_map ?failed) ''B'' (AInt 0) = Some (AStr ''B'')"
    by simp
  from at_B [THEN conjunct2, THEN conjunct2, THEN conjunct2, THEN mp, OF raised, THEN spec, of "''B''"]
  have none: "table_get (inv_label_map ?failed) ''B'' (AStr ''B'') = None" .
  from lm im closed v ok zero lab inverted b raised zero' none show ?thesis
    by (intro conjI)
qed

text \<open>
  Claim C3 as stated fails. After the pass over the graph with the edges from A to B
  and from B to C, with one level, the entry of A in the Inverse Label Table has three
  items. The first has the integer 0 as its key and the name as its value; the inversion
  of the entry of A in the Label Table has no such key.
\<close>

theorem inverse_table_extra_entry_counterexample:
  "map_of (label_map (fst (weisfeiler_lehman toy_digest (fresh_walker 1) chain_kg))) ''A'' =
     Some [(0, ''A''), (1, ''#A-'')] \<and>
   map_of (inv_label_map (fst (weisfeiler_lehman toy_digest (fresh_walker 1) chain_kg))) ''A'' =
     Some [(AInt 0, AStr ''A''), (AStr ''A'', AInt 0), (AStr ''#A-'', AInt 1)] \<and>
   map_of [(AInt 0, AStr ''A''), (AStr ''A'', AInt 0), (AStr ''#A-'', AInt 1)] (AInt 0) = Some (AStr ''A'') \<and>
   inverse_of [(0, ''A''), (1, ''#A-'')] (AInt 0) = None"
  by code_simp

end
